theory Spec2Isabelle
  imports
    Main
    "HOL-Library.Word"
    "HOL-Library.FSet"
    "HOL-Library.Finite_Map"
begin

section \<open>Data model (Collector.hpp)\<close>

text \<open>
  A \<^verbatim>\<open>Collectable*\<close> is an address; \<open>0\<close> is the null pointer. Threads are numbered.
  \<^verbatim>\<open>size_t\<close> is a 64-bit word (\<open>+\<close> wraps); \<^verbatim>\<open>int\<close> is a 32-bit signed integer, kept as
  an \<open>int\<close> with its overflow (undefined behaviour in C++) made an error of the model.
\<close>

type_synonym addr = nat
type_synonym thread = nat
type_synonym size_t = "64 word"

definition INT_MAX :: int where
  "INT_MAX = 2147483647"

definition INT_MIN :: int where
  "INT_MIN = - 2147483648"

text \<open>
  \<^verbatim>\<open>class Collectable\<close>: the three private fields the collector owns. The constructor
  sets \<^verbatim>\<open>gcRootCount(0), gcSequence(0)\<close> and leaves the vector empty.
\<close>

record Collectable =
  gcConnections :: "addr list"
  gcRootCount :: int
  gcSequence :: size_t

definition new_Collectable :: Collectable where
  "new_Collectable = \<lparr>gcConnections = [], gcRootCount = 0, gcSequence = 0\<rparr>"

text \<open>
  \<^verbatim>\<open>struct Event { Type type; Collectable* a; Collectable* b; }\<close> with
  \<^verbatim>\<open>enum Type { AddRoot, RemoveRoot, Connect, Disconnect }\<close>. \<^verbatim>\<open>Collector::AddRoot\<close> and
  \<^verbatim>\<open>Collector::RemoveRoot\<close> leave \<^verbatim>\<open>b\<close> unset and the replay never reads it for these two
  types, so the tagged value carries \<^verbatim>\<open>a\<close> alone there.
\<close>

datatype Event =
  AddRoot addr
| RemoveRoot addr
| Connect addr addr
| Disconnect addr addr

text \<open>
  How a run of the collector can stop without returning: the two assertions of
  \<^verbatim>\<open>_ProcessEvents\<close>, the assertions of the \<^verbatim>\<open>EdgePtr\<close> members, a dereference of a
  pointer that designates no live \<^verbatim>\<open>Collectable\<close>, and signed overflow of a root count.
\<close>

datatype error =
  AssertRootCount
| AssertConnection
| AssertOwner
| InvalidPointer
| SignedOverflow

text \<open>
  The state: the live \<^verbatim>\<open>Collectable\<close> objects (\<open>heap\<close>), the log of every \<^verbatim>\<open>delete\<close>
  the collector has executed, in order (\<open>destroyed\<close>), and the fields of the singleton
  \<^verbatim>\<open>Collector\<close>: \<^verbatim>\<open>_eventQueue\<close> (front of the queue first), \<^verbatim>\<open>_nodes\<close>, the thread-specific
  \<^verbatim>\<open>_inGC\<close> (\<open>None\<close> where \<^verbatim>\<open>_inGC.get()\<close> is null on that thread), \<^verbatim>\<open>_sequence\<close> and
  \<^verbatim>\<open>_graphChanged\<close>. \<^verbatim>\<open>_mutex\<close> serialises \<^verbatim>\<open>ProcessEvents\<close> and \<^verbatim>\<open>Collect\<close>; in this
  sequential model taking it always succeeds.
\<close>

record Collector =
  heap :: "(addr, Collectable) fmap"
  destroyed :: "addr list"
  eventQueue :: "Event list"
  nodes :: "addr fset"
  inGC :: "thread \<Rightarrow> bool option"
  sequence :: size_t
  graphChanged :: bool

text \<open>
  \<^verbatim>\<open>Collector::Collector() : _eventQueue(32000), _sequence(0), _graphChanged(false)\<close>,
  in a process that has allocated no \<^verbatim>\<open>Collectable\<close> yet.
\<close>

definition queue_capacity :: nat where
  "queue_capacity = 32000"

definition Collector_init :: Collector where
  "Collector_init =
     \<lparr>heap = fmempty, destroyed = [], eventQueue = [], nodes = {||},
      inGC = (\<lambda>t. None), sequence = 0, graphChanged = False\<rparr>"

text \<open>\<^verbatim>\<open>new T\<close> for a class derived from \<^verbatim>\<open>Collectable\<close>, at an address not in use.\<close>

definition new_object :: "Collector \<Rightarrow> addr \<Rightarrow> Collector" where
  "new_object s x = s\<lparr>heap := fmupd x new_Collectable (heap s)\<rparr>"

section \<open>The event channel (Collector.cpp, lines 16-60)\<close>

text \<open>
  \<^verbatim>\<open>_eventQueue.push(e)\<close> of the fixed-size lock-free queue: fails (returns false) when
  the queue holds \<open>queue_capacity\<close> events.
\<close>

definition queue_push :: "Event list \<Rightarrow> Event \<Rightarrow> Event list option" where
  "queue_push q e = (if length q < queue_capacity then Some (q @ [e]) else None)"

text \<open>
  \<^verbatim>\<open>_PushEvent\<close>: \<^verbatim>\<open>while(!_eventQueue.push(e)) { warn }\<close>. With no other thread
  draining the queue the loop on a full queue never ends: the value \<open>None\<close>.
\<close>

partial_function (option) PushEvent' :: "Collector \<Rightarrow> Event \<Rightarrow> Collector option" where
  "PushEvent' s e =
     (case queue_push (eventQueue s) e of
        Some q \<Rightarrow> Some (s\<lparr>eventQueue := q\<rparr>)
      | None \<Rightarrow> PushEvent' s e)"

definition Collector_AddRoot :: "Collector \<Rightarrow> addr \<Rightarrow> Collector option" where
  "Collector_AddRoot s node = PushEvent' s (AddRoot node)"

definition Collector_RemoveRoot :: "Collector \<Rightarrow> addr \<Rightarrow> Collector option" where
  "Collector_RemoveRoot s node = PushEvent' s (RemoveRoot node)"

definition AddEdge :: "Collector \<Rightarrow> addr \<Rightarrow> addr \<Rightarrow> Collector option" where
  "AddEdge s x y = PushEvent' s (Connect x y)"

definition RemoveEdge :: "Collector \<Rightarrow> addr \<Rightarrow> addr \<Rightarrow> Collector option" where
  "RemoveEdge s x y = PushEvent' s (Disconnect x y)"

section \<open>Event replay (Collector.cpp, lines 62-115)\<close>

text \<open>\<^verbatim>\<open>std::find(adj.begin(), adj.end(), x)\<close> as an index; \<open>length adj\<close> is \<^verbatim>\<open>adj.end()\<close>.\<close>

fun std_find :: "addr list \<Rightarrow> addr \<Rightarrow> nat" where
  "std_find [] x = 0"
| "std_find (y # ys) x = (if y = x then 0 else Suc (std_find ys x))"

text \<open>\<^verbatim>\<open>adj.erase(iter)\<close> for an iterator that is not \<^verbatim>\<open>end()\<close>.\<close>

definition vector_erase :: "addr list \<Rightarrow> nat \<Rightarrow> addr list" where
  "vector_erase adj i = take i adj @ drop (Suc i) adj"

text \<open>
  The body of the \<^verbatim>\<open>switch (e.type)\<close> in \<^verbatim>\<open>_ProcessEvents\<close>. The first argument is the
  state after the pop and after \<^verbatim>\<open>_graphChanged = true\<close>.
\<close>

fun ProcessEvent :: "Collector \<Rightarrow> Event \<Rightarrow> error + Collector" where
  "ProcessEvent s (AddRoot x) =
     (let s1 = s\<lparr>nodes := finsert x (nodes s)\<rparr> in
      case fmlookup (heap s1) x of
        None \<Rightarrow> Inl InvalidPointer
      | Some obj \<Rightarrow>
          if gcRootCount obj = INT_MAX then Inl SignedOverflow
          else Inr (s1\<lparr>heap := fmupd x (obj\<lparr>gcRootCount := gcRootCount obj + 1\<rparr>) (heap s1)\<rparr>))"
| "ProcessEvent s (RemoveRoot x) =
     (case fmlookup (heap s) x of
        None \<Rightarrow> Inl InvalidPointer
      | Some obj \<Rightarrow>
          if gcRootCount obj = INT_MIN then Inl SignedOverflow
          else if gcRootCount obj - 1 \<ge> 0
          then Inr (s\<lparr>heap := fmupd x (obj\<lparr>gcRootCount := gcRootCount obj - 1\<rparr>) (heap s)\<rparr>)
          else Inl AssertRootCount)"
| "ProcessEvent s (Connect x y) =
     (case fmlookup (heap s) x of
        None \<Rightarrow> Inl InvalidPointer
      | Some obj \<Rightarrow>
          Inr (s\<lparr>heap := fmupd x (obj\<lparr>gcConnections := gcConnections obj @ [y]\<rparr>) (heap s)\<rparr>))"
| "ProcessEvent s (Disconnect x y) =
     (case fmlookup (heap s) x of
        None \<Rightarrow> Inl InvalidPointer
      | Some obj \<Rightarrow>
          (let adj = gcConnections obj; iter = std_find adj y in
           if iter \<noteq> length adj
           then Inr (s\<lparr>heap := fmupd x (obj\<lparr>gcConnections := vector_erase adj iter\<rparr>) (heap s)\<rparr>)
           else Inl AssertConnection))"

lemma ProcessEvent_eventQueue:
  "ProcessEvent s e = Inr s' \<Longrightarrow> eventQueue s' = eventQueue s"
  by (cases e) (auto simp: Let_def split: option.splits if_splits)

text \<open>\<^verbatim>\<open>_ProcessEvents\<close>: \<^verbatim>\<open>while(_eventQueue.pop(e)) { _graphChanged = true; switch ... }\<close>.\<close>

function ProcessEvents' :: "Collector \<Rightarrow> error + Collector" where
  "ProcessEvents' s =
     (case eventQueue s of
        [] \<Rightarrow> Inr s
      | e # q \<Rightarrow>
          (case ProcessEvent (s\<lparr>eventQueue := q, graphChanged := True\<rparr>) e of
             Inl err \<Rightarrow> Inl err
           | Inr s' \<Rightarrow> ProcessEvents' s'))"
  by pat_completeness auto
termination
  by (relation "measure (\<lambda>s. length (eventQueue s))")
     (auto dest: ProcessEvent_eventQueue)

declare ProcessEvents'.simps [simp del]

text \<open>\<^verbatim>\<open>ProcessEvents\<close>: take the lock, call \<^verbatim>\<open>_ProcessEvents\<close>.\<close>

definition ProcessEvents :: "Collector \<Rightarrow> error + Collector" where
  "ProcessEvents s = ProcessEvents' s"

section \<open>Trace and sweep (Collector.cpp, lines 117-179)\<close>

text \<open>
  \<^verbatim>\<open>InGC()\<close>: allocates the thread's flag as \<^verbatim>\<open>false\<close> when the thread has none, and
  returns the flag.
\<close>

definition InGC :: "thread \<Rightarrow> Collector \<Rightarrow> bool \<times> Collector" where
  "InGC t s =
     (case inGC s t of
        None \<Rightarrow> (False, s\<lparr>inGC := (inGC s)(t \<mapsto> False)\<rparr>)
      | Some f \<Rightarrow> (f, s))"

text \<open>
  The head of \<^verbatim>\<open>Collect\<close>: \<^verbatim>\<open>if(! _inGC.get()) _inGC.reset(new bool); *_inGC = true;\<close>
  and its last statement \<^verbatim>\<open>*_inGC = false;\<close>, on the calling thread \<open>t\<close>.
\<close>

definition Collect_enter :: "thread \<Rightarrow> Collector \<Rightarrow> Collector" where
  "Collect_enter t s = s\<lparr>inGC := (inGC s)(t \<mapsto> True)\<rparr>"

definition Collect_leave :: "thread \<Rightarrow> Collector \<Rightarrow> Collector" where
  "Collect_leave t s = s\<lparr>inGC := (inGC s)(t \<mapsto> False)\<rparr>"

text \<open>
  "Traverse starting with roots": the loop over \<^verbatim>\<open>_nodes\<close> that pushes every node with
  \<^verbatim>\<open>node->gcRootCount\<close> non-zero. A \<^verbatim>\<open>std::vector\<close> used as a stack is a list whose last
  element is \<^verbatim>\<open>back()\<close>.
\<close>

fun seed_roots :: "(addr, Collectable) fmap \<Rightarrow> addr list \<Rightarrow> addr list \<Rightarrow> error + addr list" where
  "seed_roots h [] nodeStack = Inr nodeStack"
| "seed_roots h (node # rest) nodeStack =
     (case fmlookup h node of
        None \<Rightarrow> Inl InvalidPointer
      | Some obj \<Rightarrow>
          seed_roots h rest (if gcRootCount obj \<noteq> 0 then nodeStack @ [node] else nodeStack))"

text \<open>The objects of a heap whose stamp is not \<open>seq\<close>.\<close>

definition unmarked :: "size_t \<Rightarrow> (addr, Collectable) fmap \<Rightarrow> addr set" where
  "unmarked seq h = {x. \<exists>obj. fmlookup h x = Some obj \<and> gcSequence obj \<noteq> seq}"

lemma finite_unmarked: "finite (unmarked seq h)"
proof (rule finite_subset)
  show "unmarked seq h \<subseteq> fmdom' h"
    by (auto simp: unmarked_def fmlookup_dom'_iff)
  show "finite (fmdom' h)"
    by simp
qed

lemma unmarked_stamp:
  assumes "fmlookup h x = Some obj" "gcSequence obj \<noteq> seq"
  shows "unmarked seq (fmupd x (obj\<lparr>gcSequence := seq\<rparr>) h) \<subset> unmarked seq h"
proof -
  have "x \<in> unmarked seq h"
    using assms by (simp add: unmarked_def)
  moreover have "x \<notin> unmarked seq (fmupd x (obj\<lparr>gcSequence := seq\<rparr>) h)"
    by (simp add: unmarked_def)
  moreover have "unmarked seq (fmupd x (obj\<lparr>gcSequence := seq\<rparr>) h) \<subseteq> unmarked seq h"
    by (auto simp: unmarked_def split: if_splits)
  ultimately show ?thesis
    by blast
qed

text \<open>
  "Mark": \<^verbatim>\<open>while(! nodeStack.empty())\<close>, popping \<^verbatim>\<open>back()\<close>, stamping a node whose stamp
  is not \<^verbatim>\<open>_sequence\<close> and pushing each of its connections in order.
\<close>

function mark :: "size_t \<Rightarrow> (addr, Collectable) fmap \<Rightarrow> addr list \<Rightarrow> error + (addr, Collectable) fmap" where
  "mark seq h nodeStack =
     (if nodeStack = [] then Inr h
      else
        (let node = last nodeStack; st = butlast nodeStack in
         case fmlookup h node of
           None \<Rightarrow> Inl InvalidPointer
         | Some obj \<Rightarrow>
             if gcSequence obj \<noteq> seq
             then mark seq (fmupd node (obj\<lparr>gcSequence := seq\<rparr>) h) (st @ gcConnections obj)
             else mark seq h st))"
  by pat_completeness auto
termination
  apply (relation "inv_image (finite_psubset <*lex*> measure length)
           (\<lambda>(seq, h, st). (unmarked seq h, st))")
    apply (intro wf_inv_image wf_lex_prod wf_finite_psubset wf_measure)
   apply (simp add: finite_psubset_def unmarked_stamp finite_unmarked)
  apply simp
  done

declare mark.simps [simp del]

text \<open>
  \<^verbatim>\<open>delete node\<close>: the object stops being live, and the log records the call. The
  destructor of the derived class is application code; the Edge handles it destroys run
  \<open>EdgePtr_dtor\<close> (below) on the sweeping thread, in the state the sweep has reached.
\<close>

definition delete_node :: "Collector \<Rightarrow> addr \<Rightarrow> Collector" where
  "delete_node s node = s\<lparr>heap := fmdrop node (heap s), destroyed := destroyed s @ [node]\<rparr>"

text \<open>
  "Sweep": the loop over \<^verbatim>\<open>_nodes\<close> that deletes every node whose stamp is not
  \<^verbatim>\<open>_sequence\<close> and inserts the others into \<^verbatim>\<open>newNodes\<close>.
\<close>

fun sweep :: "addr list \<Rightarrow> addr fset \<Rightarrow> Collector \<Rightarrow> error + (addr fset \<times> Collector)" where
  "sweep [] newNodes s = Inr (newNodes, s)"
| "sweep (node # rest) newNodes s =
     (case fmlookup (heap s) node of
        None \<Rightarrow> Inl InvalidPointer
      | Some obj \<Rightarrow>
          if gcSequence obj \<noteq> sequence s
          then sweep rest newNodes (delete_node s node)
          else sweep rest (finsert node newNodes) s)"

text \<open>
  The body of \<^verbatim>\<open>if(_graphChanged) { ... }\<close>, in its three phases. A \<^verbatim>\<open>std::set\<close> of
  pointers is iterated in increasing order.
\<close>

definition Collect_mark :: "Collector \<Rightarrow> error + Collector" where
  "Collect_mark s =
     (let s1 = s\<lparr>sequence := sequence s + 1\<rparr> in
      case seed_roots (heap s1) (sorted_list_of_fset (nodes s1)) [] of
        Inl err \<Rightarrow> Inl err
      | Inr nodeStack \<Rightarrow>
          (case mark (sequence s1) (heap s1) nodeStack of
             Inl err \<Rightarrow> Inl err
           | Inr h \<Rightarrow> Inr (s1\<lparr>heap := h\<rparr>)))"

definition Collect_sweep :: "Collector \<Rightarrow> error + Collector" where
  "Collect_sweep s =
     (case sweep (sorted_list_of_fset (nodes s)) {||} s of
        Inl err \<Rightarrow> Inl err
      | Inr (newNodes, s1) \<Rightarrow> Inr (s1\<lparr>nodes := newNodes, graphChanged := False\<rparr>))"

definition Collect :: "thread \<Rightarrow> Collector \<Rightarrow> error + Collector" where
  "Collect t s =
     (case ProcessEvents' (Collect_enter t s) of
        Inl err \<Rightarrow> Inl err
      | Inr s1 \<Rightarrow>
          if graphChanged s1
          then
            (case Collect_mark s1 of
               Inl err \<Rightarrow> Inl err
             | Inr s2 \<Rightarrow>
                 (case Collect_sweep s2 of
                    Inl err \<Rightarrow> Inl err
                  | Inr s3 \<Rightarrow> Inr (Collect_leave t s3)))
          else Inr (Collect_leave t s1))"

section \<open>The handle protocol (Collector.hpp, lines 132-301)\<close>

text \<open>\<^verbatim>\<open>RootPtr<T>\<close> holds \<^verbatim>\<open>T* _ptr\<close>; \<^verbatim>\<open>EdgePtr<T>\<close> holds \<^verbatim>\<open>Collectable* _owner\<close> and \<^verbatim>\<open>T* _ptr\<close>.\<close>

record RootPtr =
  root_ptr :: addr

record EdgePtr =
  edge_owner :: addr
  edge_ptr :: addr

text \<open>
  A handle operation returns \<open>None\<close> when a push spins for ever on a full queue,
  \<open>Some (Inl err)\<close> when an assertion fails, and \<open>Some (Inr r)\<close> when it returns.
\<close>

definition RootPtr_Retain :: "Collector \<Rightarrow> RootPtr \<Rightarrow> Collector option" where
  "RootPtr_Retain s p = (if root_ptr p \<noteq> 0 then Collector_AddRoot s (root_ptr p) else Some s)"

definition RootPtr_Release :: "Collector \<Rightarrow> RootPtr \<Rightarrow> Collector option" where
  "RootPtr_Release s p = (if root_ptr p \<noteq> 0 then Collector_RemoveRoot s (root_ptr p) else Some s)"

text \<open>\<^verbatim>\<open>explicit RootPtr(T* ptr)\<close>.\<close>

definition RootPtr_ctor :: "Collector \<Rightarrow> addr \<Rightarrow> (RootPtr \<times> Collector) option" where
  "RootPtr_ctor s x =
     (let p = \<lparr>root_ptr = x\<rparr> in
      case RootPtr_Retain s p of None \<Rightarrow> None | Some s1 \<Rightarrow> Some (p, s1))"

text \<open>\<^verbatim>\<open>RootPtr(const RootPtr& other) : _ptr(other._ptr) { _Retain(); }\<close>.\<close>

definition RootPtr_copy_ctor :: "Collector \<Rightarrow> RootPtr \<Rightarrow> (RootPtr \<times> Collector) option" where
  "RootPtr_copy_ctor s other =
     (let p = \<lparr>root_ptr = root_ptr other\<rparr> in
      case RootPtr_Retain s p of None \<Rightarrow> None | Some s1 \<Rightarrow> Some (p, s1))"

text \<open>\<^verbatim>\<open>~RootPtr()\<close>.\<close>

definition RootPtr_dtor :: "Collector \<Rightarrow> RootPtr \<Rightarrow> Collector option" where
  "RootPtr_dtor s p = RootPtr_Release s p"

definition EdgePtr_Retain :: "Collector \<Rightarrow> EdgePtr \<Rightarrow> Collector option" where
  "EdgePtr_Retain s p =
     (if edge_ptr p \<noteq> 0 then AddEdge s (edge_owner p) (edge_ptr p) else Some s)"

definition EdgePtr_Release :: "Collector \<Rightarrow> EdgePtr \<Rightarrow> Collector option" where
  "EdgePtr_Release s p =
     (if edge_ptr p \<noteq> 0 then RemoveEdge s (edge_owner p) (edge_ptr p) else Some s)"

text \<open>\<^verbatim>\<open>EdgePtr(Collectable* owner)\<close>.\<close>

definition EdgePtr_ctor :: "Collector \<Rightarrow> addr \<Rightarrow> (error + EdgePtr \<times> Collector) option" where
  "EdgePtr_ctor s owner =
     (let p = \<lparr>edge_owner = owner, edge_ptr = 0\<rparr> in
      if owner = 0 then Some (Inl AssertOwner) else Some (Inr (p, s)))"

text \<open>\<^verbatim>\<open>EdgePtr(Collectable* owner, const RootPtr<T>& other)\<close>.\<close>

definition EdgePtr_ctor_root ::
  "Collector \<Rightarrow> addr \<Rightarrow> RootPtr \<Rightarrow> (error + EdgePtr \<times> Collector) option" where
  "EdgePtr_ctor_root s owner other =
     (let p = \<lparr>edge_owner = owner, edge_ptr = root_ptr other\<rparr> in
      if owner = 0 then Some (Inl AssertOwner)
      else case EdgePtr_Retain s p of None \<Rightarrow> None | Some s1 \<Rightarrow> Some (Inr (p, s1)))"

text \<open>
  \<^verbatim>\<open>EdgePtr(const EdgePtr&)\<close>. The class declares two constructors, a destructor and two
  assignment operators, and no copy constructor; the one C++ then defines copies
  \<^verbatim>\<open>_owner\<close> and \<^verbatim>\<open>_ptr\<close> and runs no other code.
\<close>

definition EdgePtr_copy_ctor :: "Collector \<Rightarrow> EdgePtr \<Rightarrow> (error + EdgePtr \<times> Collector) option" where
  "EdgePtr_copy_ctor s other =
     Some (Inr (\<lparr>edge_owner = edge_owner other, edge_ptr = edge_ptr other\<rparr>, s))"

text \<open>\<^verbatim>\<open>~EdgePtr()\<close>: \<^verbatim>\<open>if(! Collector::GetInstance().InGC()) { _Release(); }\<close> on thread \<open>t\<close>.\<close>

definition EdgePtr_dtor :: "thread \<Rightarrow> Collector \<Rightarrow> EdgePtr \<Rightarrow> Collector option" where
  "EdgePtr_dtor t s p =
     (case InGC t s of (f, s1) \<Rightarrow> if \<not> f then EdgePtr_Release s1 p else Some s1)"

text \<open>\<^verbatim>\<open>EdgePtr& operator=(const EdgePtr& other)\<close>.\<close>

definition EdgePtr_assign ::
  "Collector \<Rightarrow> EdgePtr \<Rightarrow> EdgePtr \<Rightarrow> (error + EdgePtr \<times> Collector) option" where
  "EdgePtr_assign s p other =
     (if edge_owner p \<noteq> edge_owner other then Some (Inl AssertOwner)
      else if edge_ptr p \<noteq> edge_ptr other
      then
        (case EdgePtr_Release s p of
           None \<Rightarrow> None
         | Some s1 \<Rightarrow>
             (let p1 = p\<lparr>edge_ptr := edge_ptr other\<rparr> in
              case EdgePtr_Retain s1 p1 of None \<Rightarrow> None | Some s2 \<Rightarrow> Some (Inr (p1, s2))))
      else Some (Inr (p, s)))"

text \<open>\<^verbatim>\<open>EdgePtr& operator=(const RootPtr<T2>& other)\<close>.\<close>

definition EdgePtr_assign_root ::
  "Collector \<Rightarrow> EdgePtr \<Rightarrow> RootPtr \<Rightarrow> (error + EdgePtr \<times> Collector) option" where
  "EdgePtr_assign_root s p other =
     (if edge_ptr p \<noteq> root_ptr other
      then
        (case EdgePtr_Release s p of
           None \<Rightarrow> None
         | Some s1 \<Rightarrow>
             (let p1 = p\<lparr>edge_ptr := root_ptr other\<rparr> in
              case EdgePtr_Retain s1 p1 of None \<Rightarrow> None | Some s2 \<Rightarrow> Some (Inr (p1, s2))))
      else Some (Inr (p, s)))"

section \<open>Vocabulary of the properties\<close>

text \<open>
  The replay of a list of events on the mirror, one \<open>ProcessEvent\<close> after the other with
  the dirty flag set before each: what \<^verbatim>\<open>_ProcessEvents\<close> does to a queue holding that
  list, told without the queue.
\<close>

fun replay :: "Collector \<Rightarrow> Event list \<Rightarrow> error + Collector" where
  "replay s [] = Inr s"
| "replay s (e # es) =
     (case ProcessEvent (s\<lparr>graphChanged := True\<rparr>) e of
        Inl err \<Rightarrow> Inl err
      | Inr s' \<Rightarrow> replay s' es)"

text \<open>
  What the threads of a program do to the collector, one action at a time: a handle
  emits an event, some thread calls \<^verbatim>\<open>ProcessEvents\<close>, the worker \<open>t\<close> calls \<^verbatim>\<open>Collect\<close>.
  \<open>run\<close> is \<open>None\<close> when a push never returns and stops at the first failure.
\<close>

datatype action =
  Emit Event
| CallProcessEvents
| CallCollect thread

fun run :: "Collector \<Rightarrow> action list \<Rightarrow> (error + Collector) option" where
  "run s [] = Some (Inr s)"
| "run s (Emit e # acts) =
     (case PushEvent' s e of None \<Rightarrow> None | Some s1 \<Rightarrow> run s1 acts)"
| "run s (CallProcessEvents # acts) =
     (case ProcessEvents s of Inl err \<Rightarrow> Some (Inl err) | Inr s1 \<Rightarrow> run s1 acts)"
| "run s (CallCollect t # acts) =
     (case Collect t s of Inl err \<Rightarrow> Some (Inl err) | Inr s1 \<Rightarrow> run s1 acts)"

fun emitted :: "action list \<Rightarrow> Event list" where
  "emitted [] = []"
| "emitted (Emit e # acts) = e # emitted acts"
| "emitted (_ # acts) = emitted acts"

fun is_collect :: "action \<Rightarrow> bool" where
  "is_collect (CallCollect t) = True"
| "is_collect _ = False"

text \<open>The root count of an object of the mirror (\<open>0\<close> where there is no object).\<close>

definition root_count :: "Collector \<Rightarrow> addr \<Rightarrow> int" where
  "root_count s x = (case fmlookup (heap s) x of None \<Rightarrow> 0 | Some obj \<Rightarrow> gcRootCount obj)"

text \<open>
  Every \<open>RemoveRoot x\<close> of the pending events is matched by an earlier \<open>AddRoot x\<close>, or by
  one replayed before and still counted in the object: in every prefix of the queue there
  are at most as many \<open>RemoveRoot x\<close> as the root count of \<open>x\<close> plus the \<open>AddRoot x\<close> of
  that prefix.
\<close>

definition roots_matched :: "Collector \<Rightarrow> bool" where
  "roots_matched s =
     (\<forall>n \<le> length (eventQueue s). \<forall>x.
        int (count_list (take n (eventQueue s)) (RemoveRoot x))
          \<le> root_count s x + int (count_list (take n (eventQueue s)) (AddRoot x)))"

text \<open>The same, for counts given as a function: the form the replay steps through.\<close>

definition matched_from :: "(addr \<Rightarrow> int) \<Rightarrow> Event list \<Rightarrow> bool" where
  "matched_from rc q =
     (\<forall>n \<le> length q. \<forall>x.
        int (count_list (take n q) (RemoveRoot x)) \<le> rc x + int (count_list (take n q) (AddRoot x)))"

text \<open>Every live object has a root count that is not negative.\<close>

definition root_counts_nonneg :: "Collector \<Rightarrow> bool" where
  "root_counts_nonneg s = (\<forall>x obj. fmlookup (heap s) x = Some obj \<longrightarrow> 0 \<le> gcRootCount obj)"

text \<open>
  What a step that neither traces nor sweeps leaves alone: the log of destructions, the
  registered objects (it may add some), the set of live objects, the sequence number,
  the flags of the threads and the stamp of every object.
\<close>

definition frame :: "Collector \<Rightarrow> Collector \<Rightarrow> bool" where
  "frame s s' \<longleftrightarrow>
     destroyed s' = destroyed s \<and> nodes s |\<subseteq>| nodes s' \<and> fmdom (heap s') = fmdom (heap s) \<and>
     sequence s' = sequence s \<and> inGC s' = inGC s \<and>
     (\<forall>x obj'. fmlookup (heap s') x = Some obj' \<longrightarrow>
        (\<exists>obj. fmlookup (heap s) x = Some obj \<and> gcSequence obj' = gcSequence obj))"

text \<open>
  What a step does to an object \<open>x\<close> that it leaves out of the registry: no \<open>AddRoot x\<close> is
  pending after it, the log of destructions holds \<open>x\<close> as often as before, and \<open>x\<close> is
  still live if it was.
\<close>

definition spared :: "addr \<Rightarrow> Collector \<Rightarrow> Collector \<Rightarrow> bool" where
  "spared x s s' \<longleftrightarrow>
     x |\<notin>| nodes s' \<and> AddRoot x \<notin> set (eventQueue s') \<and>
     count_list (destroyed s') x = count_list (destroyed s) x \<and>
     (x |\<in>| fmdom (heap s) \<longrightarrow> x |\<in>| fmdom (heap s'))"

text \<open>
  The events that constructing or assigning an Edge handle is to emit, for the owner, the
  current target and the new target: none when the targets are equal; otherwise
  \<open>Disconnect owner old\<close> when the old target is non-null, then \<open>Connect owner new\<close> when
  the new target is non-null.
\<close>

definition edge_events :: "addr \<Rightarrow> addr \<Rightarrow> addr \<Rightarrow> Event list" where
  "edge_events owner old new =
     (if new = old then []
      else (if old \<noteq> 0 then [Disconnect owner old] else []) @
           (if new \<noteq> 0 then [Connect owner new] else []))"

text \<open>
  The flags of the threads in a state \<open>sx\<close> that thread \<open>t\<close> passes through inside a call
  of \<^verbatim>\<open>Collect\<close> entered in state \<open>s\<close>: \<^verbatim>\<open>InGC\<close> returns true on \<open>t\<close> and allocates
  nothing, and the flag of every other thread is what it was in \<open>s\<close>.
\<close>

definition flags_during :: "thread \<Rightarrow> Collector \<Rightarrow> Collector \<Rightarrow> bool" where
  "flags_during t s sx \<longleftrightarrow>
     InGC t sx = (True, sx) \<and> (\<forall>t'. t' \<noteq> t \<longrightarrow> inGC sx t' = inGC s t')"

text \<open>No thread has its flag set: the states in which no thread is inside \<^verbatim>\<open>Collect\<close>.\<close>

definition no_thread_in_collector :: "Collector \<Rightarrow> bool" where
  "no_thread_in_collector s \<longleftrightarrow> (\<forall>t. inGC s t \<noteq> Some True)"

text \<open>
  The mirrored edges: \<open>(x, y)\<close> when \<open>y\<close> is an entry of the connections of the live
  object \<open>x\<close>. An object is rooted when it is registered and its root count is positive,
  and reachable when a path of mirrored edges leads to it from a rooted object.
\<close>

definition edges :: "(addr, Collectable) fmap \<Rightarrow> (addr \<times> addr) set" where
  "edges h = {(x, y). \<exists>obj. fmlookup h x = Some obj \<and> y \<in> set (gcConnections obj)}"

definition rooted :: "Collector \<Rightarrow> addr set" where
  "rooted s = {x. x |\<in>| nodes s \<and> (\<exists>obj. fmlookup (heap s) x = Some obj \<and> 0 < gcRootCount obj)}"

definition reachable :: "Collector \<Rightarrow> addr set" where
  "reachable s = (edges (heap s))\<^sup>* `` rooted s"

text \<open>The objects of a heap that carry the stamp \<open>seq\<close>.\<close>

definition marked :: "size_t \<Rightarrow> (addr, Collectable) fmap \<Rightarrow> addr set" where
  "marked seq h = {x. \<exists>obj. fmlookup h x = Some obj \<and> gcSequence obj = seq}"

text \<open>
  Two heaps that differ at most in stamps, a changed stamp being \<open>seq\<close>: all that the
  mark loop does to the heap.
\<close>

definition stamped :: "size_t \<Rightarrow> (addr, Collectable) fmap \<Rightarrow> (addr, Collectable) fmap \<Rightarrow> bool" where
  "stamped seq h h' \<longleftrightarrow>
     (\<forall>x. rel_option
        (\<lambda>obj obj'. gcConnections obj' = gcConnections obj \<and> gcRootCount obj' = gcRootCount obj \<and>
           (gcSequence obj' = gcSequence obj \<or> gcSequence obj' = seq))
        (fmlookup h x) (fmlookup h' x))"

text \<open>
  The invariant of the mark loop for the seeds \<open>S\<close>: marked objects and stack entries
  are reachable from the seeds, every successor of a marked object is marked or on the
  stack, and every seed is marked or on the stack.
\<close>

definition mark_inv :: "size_t \<Rightarrow> addr set \<Rightarrow> (addr, Collectable) fmap \<Rightarrow> addr list \<Rightarrow> bool" where
  "mark_inv seq S h st \<longleftrightarrow>
     marked seq h \<subseteq> (edges h)\<^sup>* `` S \<and>
     set st \<subseteq> (edges h)\<^sup>* `` S \<and>
     (\<forall>x y. x \<in> marked seq h \<and> (x, y) \<in> edges h \<longrightarrow> y \<in> marked seq h \<or> y \<in> set st) \<and>
     S \<subseteq> marked seq h \<union> set st"

text \<open>
  No live object carries the stamp that the next trace will use. Objects are created
  with stamp \<open>0\<close> and are only ever stamped with the current sequence number, so this
  holds until \<^verbatim>\<open>_sequence\<close> wraps around.
\<close>

definition stamps_fresh :: "Collector \<Rightarrow> bool" where
  "stamps_fresh s =
     (\<forall>x obj. fmlookup (heap s) x = Some obj \<longrightarrow> gcSequence obj \<noteq> sequence s + 1)"

definition stamps_bounded :: "Collector \<Rightarrow> bool" where
  "stamps_bounded s =
     (\<forall>x obj. fmlookup (heap s) x = Some obj \<longrightarrow> unat (gcSequence obj) \<le> unat (sequence s))"

section \<open>Example states\<close>

text \<open>
  Three live objects at the addresses 1, 2 and 3. Object 1 is registered, is held by one
  Root handle and has the connections 2, 3, 2 (the edge to 2 twice); 2 and 3 are fresh.
\<close>

definition example_obj :: Collectable where
  "example_obj = \<lparr>gcConnections = [2, 3, 2], gcRootCount = 1, gcSequence = 0\<rparr>"

definition example_heap :: Collector where
  "example_heap =
     Collector_init
       \<lparr>heap := fmupd 1 example_obj (fmupd 2 new_Collectable (fmupd 3 new_Collectable fmempty)),
        nodes := {|1|}\<rparr>"

text \<open>
  Three fresh objects and the events of a program that roots all three, connects 1 to 2
  and 3 to 1, and then drops the roots of 2 and 3: object 3 has become garbage.
\<close>

definition example_garbage :: Collector where
  "example_garbage =
     (new_object (new_object (new_object Collector_init 1) 2) 3)
       \<lparr>eventQueue :=
          [AddRoot 1, AddRoot 2, AddRoot 3, Connect 1 2, Connect 3 1, RemoveRoot 2, RemoveRoot 3]\<rparr>"

text \<open>
  A program with two objects: 1 is rooted and connected to 2, which is never rooted;
  after a collection the edge and the root are dropped, and the collector runs again.
\<close>

definition example_leak :: "action list" where
  "example_leak =
     [Emit (AddRoot 1), Emit (Connect 1 2), CallCollect 0,
      Emit (Disconnect 1 2), Emit (RemoveRoot 1), CallProcessEvents, CallCollect 0]"

text \<open>
  The same three events emitted around different calls of \<^verbatim>\<open>ProcessEvents\<close>.
\<close>

definition example_split1 :: "action list" where
  "example_split1 = [Emit (AddRoot 1), CallProcessEvents, Emit (Connect 1 2), Emit (RemoveRoot 1)]"

definition example_split2 :: "action list" where
  "example_split2 =
     [Emit (AddRoot 1), Emit (Connect 1 2), CallProcessEvents, CallProcessEvents, Emit (RemoveRoot 1)]"

section \<open>Facts about the event channel\<close>

lemma PushEvent'_room:
  "length (eventQueue s) < queue_capacity \<Longrightarrow>
   PushEvent' s e = Some (s\<lparr>eventQueue := eventQueue s @ [e]\<rparr>)"
  by (subst PushEvent'.simps) (simp add: queue_push_def)

lemma PushEvent'_Some_room:
  assumes "PushEvent' s e = Some s'"
  shows "length (eventQueue s) < queue_capacity"
proof (rule PushEvent'.raw_induct [where P = "\<lambda>s e s'. length (eventQueue s) < queue_capacity"])
  show "PushEvent' s e = Some s'"
    by (rule assms)
qed (auto simp: queue_push_def split: option.splits if_splits)

lemma PushEvent'_full:
  "\<not> length (eventQueue s) < queue_capacity \<Longrightarrow> PushEvent' s e = None"
  using PushEvent'_Some_room [of s e] by (cases "PushEvent' s e") auto

section \<open>Facts about the replay\<close>

lemma ProcessEvent_queue_indep:
  "ProcessEvent (s\<lparr>eventQueue := q\<rparr>) e = map_sum id (\<lambda>s'. s'\<lparr>eventQueue := q\<rparr>) (ProcessEvent s e)"
  by (cases e) (auto simp: Let_def split: option.splits)

lemma ProcessEvent_queue_indep':
  "ProcessEvent (s\<lparr>eventQueue := q, graphChanged := g\<rparr>) e
     = map_sum id (\<lambda>s'. s'\<lparr>eventQueue := q\<rparr>) (ProcessEvent (s\<lparr>graphChanged := g\<rparr>) e)"
  by (cases e) (auto simp: Let_def split: option.splits)

lemma replay_eventQueue:
  "replay s es = Inr s' \<Longrightarrow> eventQueue s' = eventQueue s"
proof (induction es arbitrary: s)
  case Nil
  then show ?case by simp
next
  case (Cons e es)
  then show ?case
    by (auto split: sum.splits dest!: ProcessEvent_eventQueue)
qed

lemma replay_queue_indep:
  "replay (s\<lparr>eventQueue := q\<rparr>) es = map_sum id (\<lambda>s'. s'\<lparr>eventQueue := q\<rparr>) (replay s es)"
proof (induction es arbitrary: s)
  case Nil
  then show ?case by simp
next
  case (Cons e es)
  have "ProcessEvent (s\<lparr>eventQueue := q, graphChanged := True\<rparr>) e
      = map_sum id (\<lambda>s'. s'\<lparr>eventQueue := q\<rparr>) (ProcessEvent (s\<lparr>graphChanged := True\<rparr>) e)"
    by (rule ProcessEvent_queue_indep')
  then show ?case
    using Cons.IH by (cases "ProcessEvent (s\<lparr>graphChanged := True\<rparr>) e") auto
qed

lemma replay_append:
  "replay s (xs @ ys) = (case replay s xs of Inl err \<Rightarrow> Inl err | Inr s' \<Rightarrow> replay s' ys)"
  by (induction xs arbitrary: s) (auto split: sum.splits)

lemma ProcessEvents'_replay:
  "ProcessEvents' s = replay (s\<lparr>eventQueue := []\<rparr>) (eventQueue s)"
proof (induction s rule: ProcessEvents'.induct)
  case (1 s)
  show ?case
  proof (cases "eventQueue s")
    case Nil
    then show ?thesis
      by (simp add: ProcessEvents'.simps [of s])
  next
    case (Cons e q)
    have pe: "ProcessEvent (s\<lparr>eventQueue := [], graphChanged := True\<rparr>) e
        = map_sum id (\<lambda>s'. s'\<lparr>eventQueue := []\<rparr>) (ProcessEvent (s\<lparr>eventQueue := q, graphChanged := True\<rparr>) e)"
      by (cases e) (auto simp: Let_def split: option.splits)
    show ?thesis
    proof (cases "ProcessEvent (s\<lparr>eventQueue := q, graphChanged := True\<rparr>) e")
      case (Inl err)
      with Cons pe show ?thesis
        by (simp add: ProcessEvents'.simps [of s])
    next
      case (Inr s')
      then have q': "eventQueue s' = q"
        by (auto dest: ProcessEvent_eventQueue)
      have "ProcessEvents' s' = replay (s'\<lparr>eventQueue := []\<rparr>) (eventQueue s')"
        using "1.IH" Cons Inr by simp
      with Cons pe Inr q' show ?thesis
        by (simp add: ProcessEvents'.simps [of s])
    qed
  qed
qed

lemma ProcessEvents'_empty: "eventQueue s = [] \<Longrightarrow> ProcessEvents' s = Inr s"
  by (simp add: ProcessEvents'.simps [of s])

lemma ProcessEvents'_drains: "ProcessEvents' s = Inr s' \<Longrightarrow> eventQueue s' = []"
  by (auto simp: ProcessEvents'_replay dest: replay_eventQueue)

lemma std_find_absent: "y \<notin> set adj \<Longrightarrow> std_find adj y = length adj"
  by (induction adj) auto

lemma std_find_present:
  "y \<in> set adj \<Longrightarrow>
   \<exists>pre post. adj = pre @ y # post \<and> y \<notin> set pre \<and> std_find adj y = length pre"
proof (induction adj)
  case Nil
  then show ?case by simp
next
  case (Cons z adj)
  show ?case
  proof (cases "z = y")
    case True
    then have "z # adj = [] @ y # adj \<and> y \<notin> set [] \<and> std_find (z # adj) y = length ([]::addr list)"
      by simp
    then show ?thesis by blast
  next
    case False
    with Cons obtain pre post where "adj = pre @ y # post" "y \<notin> set pre" "std_find adj y = length pre"
      by auto
    with False have "z # adj = (z # pre) @ y # post \<and> y \<notin> set (z # pre) \<and>
        std_find (z # adj) y = length (z # pre)"
      by simp
    then show ?thesis by blast
  qed
qed

lemma vector_erase_first: "y \<notin> set pre \<Longrightarrow> vector_erase (pre @ y # post) (length pre) = pre @ post"
  by (simp add: vector_erase_def)

lemma std_find_erase_remove1:
  "y \<in> set adj \<Longrightarrow> vector_erase adj (std_find adj y) = remove1 y adj"
  by (induction adj) (auto simp: vector_erase_def)

lemma matched_from_step:
  assumes "matched_from rc (e # q)"
  shows "matched_from
           (case e of AddRoot x \<Rightarrow> rc(x := rc x + 1) | RemoveRoot x \<Rightarrow> rc(x := rc x - 1) | _ \<Rightarrow> rc) q"
  unfolding matched_from_def
proof (intro allI impI)
  fix n x
  assume "n \<le> length q"
  then have "Suc n \<le> length (e # q)"
    by simp
  with assms have "int (count_list (take (Suc n) (e # q)) (RemoveRoot x))
      \<le> rc x + int (count_list (take (Suc n) (e # q)) (AddRoot x))"
    unfolding matched_from_def by blast
  then show "int (count_list (take n q) (RemoveRoot x))
      \<le> (case e of AddRoot x \<Rightarrow> rc(x := rc x + 1) | RemoveRoot x \<Rightarrow> rc(x := rc x - 1) | _ \<Rightarrow> rc) x
        + int (count_list (take n q) (AddRoot x))"
    by (cases e) (auto split: if_splits)
qed

lemma matched_from_head:
  assumes "matched_from rc (RemoveRoot x # q)"
  shows "0 < rc x"
proof -
  have "Suc 0 \<le> length (RemoveRoot x # q)"
    by simp
  with assms have "int (count_list (take (Suc 0) (RemoveRoot x # q)) (RemoveRoot x))
      \<le> rc x + int (count_list (take (Suc 0) (RemoveRoot x # q)) (AddRoot x))"
    unfolding matched_from_def by blast
  then show ?thesis
    by simp
qed

lemma matched_from_nonneg: "matched_from rc q \<Longrightarrow> 0 \<le> rc x"
  unfolding matched_from_def by (drule spec [of _ 0]) simp

lemma ProcessEvent_root_count:
  assumes "ProcessEvent s e = Inr s'"
  shows "root_count s'
     = (case e of AddRoot x \<Rightarrow> (root_count s)(x := root_count s x + 1)
        | RemoveRoot x \<Rightarrow> (root_count s)(x := root_count s x - 1)
        | _ \<Rightarrow> root_count s)"
  using assms
  by (cases e) (auto simp: root_count_def Let_def fun_eq_iff split: option.splits if_splits)

lemma root_count_graphChanged [simp]: "root_count (s\<lparr>graphChanged := g\<rparr>) = root_count s"
  by (simp add: root_count_def fun_eq_iff)

lemma root_count_eventQueue [simp]: "root_count (s\<lparr>eventQueue := q\<rparr>) = root_count s"
  by (simp add: root_count_def fun_eq_iff)

lemma replay_no_AssertRootCount:
  "matched_from (root_count s) es \<Longrightarrow> replay s es \<noteq> Inl AssertRootCount"
proof (induction es arbitrary: s)
  case Nil
  then show ?case by simp
next
  case (Cons e es)
  let ?s = "s\<lparr>graphChanged := True\<rparr>"
  show ?case
  proof (cases "ProcessEvent ?s e")
    case (Inl err)
    have "err \<noteq> AssertRootCount"
    proof (cases e)
      case (RemoveRoot x)
      with Cons.prems have "0 < root_count s x"
        using matched_from_head by blast
      with Inl RemoveRoot show ?thesis
        by (auto simp: root_count_def split: option.splits if_splits)
    qed (use Inl in \<open>auto simp: Let_def split: option.splits if_splits\<close>)
    with Inl show ?thesis by simp
  next
    case (Inr s')
    have "matched_from (root_count s') es"
      using matched_from_step [OF Cons.prems] ProcessEvent_root_count [OF Inr]
      by (cases e) simp_all
    with Cons.IH Inr show ?thesis by simp
  qed
qed

lemma replay_root_counts:
  "replay s es = Inr s' \<Longrightarrow> matched_from (root_count s) es \<Longrightarrow> matched_from (root_count s') []"
proof (induction es arbitrary: s)
  case Nil
  then show ?case by simp
next
  case (Cons e es)
  from Cons.prems(1) obtain s1 where
    s1: "ProcessEvent (s\<lparr>graphChanged := True\<rparr>) e = Inr s1" and r: "replay s1 es = Inr s'"
    by (auto split: sum.splits)
  have "matched_from (root_count s1) es"
    using matched_from_step [OF Cons.prems(2)] ProcessEvent_root_count [OF s1]
    by (cases e) simp_all
  with Cons.IH r show ?case by blast
qed

lemma example_matched:
  "roots_matched (example_heap\<lparr>eventQueue := [AddRoot 2, RemoveRoot 2, RemoveRoot 1]\<rparr>)"
  by (auto simp: roots_matched_def root_count_def example_heap_def example_obj_def
      new_Collectable_def Collector_init_def le_Suc_eq numeral_3_eq_3)

lemma ProcessEvent_frame:
  assumes "ProcessEvent s e = Inr s'"
  shows "destroyed s' = destroyed s \<and> nodes s |\<subseteq>| nodes s' \<and> fmdom (heap s') = fmdom (heap s) \<and>
         sequence s' = sequence s \<and> inGC s' = inGC s \<and> graphChanged s' = graphChanged s \<and>
         (\<forall>x obj'. fmlookup (heap s') x = Some obj' \<longrightarrow>
            (\<exists>obj. fmlookup (heap s) x = Some obj \<and> gcSequence obj' = gcSequence obj))"
  using assms
  by (cases e) (auto simp: Let_def fmlookup_dom_iff split: option.splits if_splits)

lemma frame_refl: "frame s s"
  by (simp add: frame_def)

lemma frame_trans: "frame s s1 \<Longrightarrow> frame s1 s2 \<Longrightarrow> frame s s2"
  unfolding frame_def by (auto; metis)

lemma replay_frame: "replay s es = Inr s' \<Longrightarrow> frame s s'"
proof (induction es arbitrary: s)
  case Nil
  then show ?case by (simp add: frame_refl)
next
  case (Cons e es)
  from Cons.prems obtain s1 where
    s1: "ProcessEvent (s\<lparr>graphChanged := True\<rparr>) e = Inr s1" and r: "replay s1 es = Inr s'"
    by (auto split: sum.splits)
  have "frame s s1"
    using ProcessEvent_frame [OF s1] by (simp add: frame_def)
  with Cons.IH [OF r] show ?case
    by (rule frame_trans [rotated])
qed

lemma ProcessEvents'_frame: "ProcessEvents' s = Inr s' \<Longrightarrow> frame s s'"
  using replay_frame [of "s\<lparr>eventQueue := []\<rparr>" "eventQueue s" s']
  by (simp add: ProcessEvents'_replay frame_def)

lemma PushEvent'_frame: "PushEvent' s e = Some s' \<Longrightarrow> frame s s'"
  using PushEvent'_Some_room [of s e s'] by (simp add: PushEvent'_room) (auto simp: frame_def)

section \<open>Facts about the trace\<close>

lemma stamped_refl: "stamped seq h h"
  by (simp add: stamped_def option.rel_refl)

lemma stamped_trans: "stamped seq h h1 \<Longrightarrow> stamped seq h1 h2 \<Longrightarrow> stamped seq h h2"
  unfolding stamped_def
proof (intro allI)
  fix x
  assume a: "\<forall>x. rel_option
        (\<lambda>obj obj'. gcConnections obj' = gcConnections obj \<and> gcRootCount obj' = gcRootCount obj \<and>
           (gcSequence obj' = gcSequence obj \<or> gcSequence obj' = seq))
        (fmlookup h x) (fmlookup h1 x)"
    and b: "\<forall>x. rel_option
        (\<lambda>obj obj'. gcConnections obj' = gcConnections obj \<and> gcRootCount obj' = gcRootCount obj \<and>
           (gcSequence obj' = gcSequence obj \<or> gcSequence obj' = seq))
        (fmlookup h1 x) (fmlookup h2 x)"
  from a [rule_format, of x] b [rule_format, of x]
  show "rel_option
        (\<lambda>obj obj'. gcConnections obj' = gcConnections obj \<and> gcRootCount obj' = gcRootCount obj \<and>
           (gcSequence obj' = gcSequence obj \<or> gcSequence obj' = seq))
        (fmlookup h x) (fmlookup h2 x)"
    by (cases "fmlookup h x"; cases "fmlookup h1 x"; cases "fmlookup h2 x") auto
qed

lemma stamped_step:
  "fmlookup h x = Some obj \<Longrightarrow> stamped seq h (fmupd x (obj\<lparr>gcSequence := seq\<rparr>) h)"
  by (auto simp: stamped_def option.rel_refl)

lemma stamped_edges: "stamped seq h h' \<Longrightarrow> edges h' = edges h"
  unfolding stamped_def edges_def
  apply (rule set_eqI)
  apply clarsimp
  subgoal for a b
    apply (drule spec [of _ a])
    apply (cases "fmlookup h a"; cases "fmlookup h' a")
       apply auto
    done
  done

lemma stamped_dom: "stamped seq h h' \<Longrightarrow> fmdom h' = fmdom h"
proof (rule fset_eqI)
  fix x
  assume "stamped seq h h'"
  then have "rel_option
        (\<lambda>obj obj'. gcConnections obj' = gcConnections obj \<and> gcRootCount obj' = gcRootCount obj \<and>
           (gcSequence obj' = gcSequence obj \<or> gcSequence obj' = seq))
        (fmlookup h x) (fmlookup h' x)"
    by (simp add: stamped_def)
  then show "x |\<in>| fmdom h' \<longleftrightarrow> x |\<in>| fmdom h"
    by (cases "fmlookup h x"; cases "fmlookup h' x") (auto simp: fmlookup_dom_iff)
qed

lemma mark_Nil: "mark seq h [] = Inr h"
  by (simp add: mark.simps [of seq h "[]"])

lemma mark_stamped: "mark seq h st = Inr h' \<Longrightarrow> stamped seq h h'"
proof (induction seq h st rule: mark.induct)
  case (1 seq h nodeStack)
  show ?case
  proof (cases "nodeStack = []")
    case True
    with "1.prems" show ?thesis
      by (simp add: mark_Nil stamped_refl)
  next
    case False
    from False "1.prems" obtain obj where obj: "fmlookup h (last nodeStack) = Some obj"
      by (auto simp: mark.simps [of seq h nodeStack] Let_def split: option.splits)
    show ?thesis
    proof (cases "gcSequence obj \<noteq> seq")
      case True
      with False obj "1.prems"
      have m: "mark seq (fmupd (last nodeStack) (obj\<lparr>gcSequence := seq\<rparr>) h)
                 (butlast nodeStack @ gcConnections obj) = Inr h'"
        by (simp add: mark.simps [of seq h nodeStack] Let_def)
      have "stamped seq (fmupd (last nodeStack) (obj\<lparr>gcSequence := seq\<rparr>) h) h'"
        using "1.IH"(1) [OF False refl refl obj True m] .
      with stamped_step [OF obj] show ?thesis
        by (rule stamped_trans)
    next
      case stamped_already: False
      with False obj "1.prems"
      have m: "mark seq h (butlast nodeStack) = Inr h'"
        by (simp add: mark.simps [of seq h nodeStack] Let_def)
      show ?thesis
        using "1.IH"(2) [OF False refl refl obj stamped_already m] .
    qed
  qed
qed

lemma marked_step:
  "marked seq (fmupd x (obj\<lparr>gcSequence := seq\<rparr>) h) = insert x (marked seq h)"
  by (auto simp: marked_def)

lemma edges_succ: "fmlookup h x = Some obj \<Longrightarrow> (x, y) \<in> edges h \<longleftrightarrow> y \<in> set (gcConnections obj)"
  by (simp add: edges_def)

lemma set_last_butlast: "st \<noteq> [] \<Longrightarrow> set st = insert (last st) (set (butlast st))"
  by (induction st) auto

lemma mark_inv_stamp:
  assumes inv: "mark_inv seq S h st" and ne: "st \<noteq> []"
    and obj: "fmlookup h (last st) = Some obj"
  shows "mark_inv seq S (fmupd (last st) (obj\<lparr>gcSequence := seq\<rparr>) h) (butlast st @ gcConnections obj)"
proof -
  let ?h = "fmupd (last st) (obj\<lparr>gcSequence := seq\<rparr>) h"
  have E: "edges ?h = edges h"
    by (rule stamped_edges [OF stamped_step [OF obj]])
  have M: "marked seq ?h = insert (last st) (marked seq h)"
    by (rule marked_step)
  have st: "set st = insert (last st) (set (butlast st))"
    by (rule set_last_butlast [OF ne])
  have top: "last st \<in> (edges h)\<^sup>* `` S"
    using inv st by (auto simp: mark_inv_def)
  have 1: "marked seq ?h \<subseteq> (edges ?h)\<^sup>* `` S"
    using inv top by (auto simp: E M mark_inv_def)
  have "set (gcConnections obj) \<subseteq> (edges h)\<^sup>* `` S"
  proof
    fix y
    assume "y \<in> set (gcConnections obj)"
    then have "(last st, y) \<in> edges h"
      by (simp add: edges_succ [OF obj])
    with top show "y \<in> (edges h)\<^sup>* `` S"
      by (auto intro: rtrancl_into_rtrancl)
  qed
  then have 2: "set (butlast st @ gcConnections obj) \<subseteq> (edges ?h)\<^sup>* `` S"
    using inv st by (auto simp: E mark_inv_def)
  have 3: "\<forall>x y. x \<in> marked seq ?h \<and> (x, y) \<in> edges ?h \<longrightarrow>
      y \<in> marked seq ?h \<or> y \<in> set (butlast st @ gcConnections obj)"
  proof (intro allI impI)
    fix x y
    assume a: "x \<in> marked seq ?h \<and> (x, y) \<in> edges ?h"
    show "y \<in> marked seq ?h \<or> y \<in> set (butlast st @ gcConnections obj)"
    proof (cases "x = last st")
      case True
      with a have "y \<in> set (gcConnections obj)"
        by (simp add: E edges_succ [OF obj])
      then show ?thesis by simp
    next
      case False
      with a have "x \<in> marked seq h" "(x, y) \<in> edges h"
        by (simp_all add: E M)
      with inv have "y \<in> marked seq h \<or> y \<in> set st"
        unfolding mark_inv_def by blast
      then show ?thesis
        using st by (auto simp: M)
    qed
  qed
  have 4: "S \<subseteq> marked seq ?h \<union> set (butlast st @ gcConnections obj)"
    using inv st by (auto simp: M mark_inv_def)
  from 1 2 3 4 show ?thesis
    unfolding mark_inv_def by blast
qed

lemma mark_inv_skip:
  assumes inv: "mark_inv seq S h st" and ne: "st \<noteq> []"
    and obj: "fmlookup h (last st) = Some obj" and old: "gcSequence obj = seq"
  shows "mark_inv seq S h (butlast st)"
proof -
  have st: "set st = insert (last st) (set (butlast st))"
    by (rule set_last_butlast [OF ne])
  have top: "last st \<in> marked seq h"
    using obj old by (simp add: marked_def)
  show ?thesis
    using inv st top unfolding mark_inv_def by auto
qed

lemma mark_inv_final: "mark seq h st = Inr h' \<Longrightarrow> mark_inv seq S h st \<Longrightarrow> mark_inv seq S h' []"
proof (induction seq h st rule: mark.induct)
  case (1 seq h nodeStack)
  show ?case
  proof (cases "nodeStack = []")
    case True
    with "1.prems" show ?thesis
      by (simp add: mark_Nil)
  next
    case False
    from False "1.prems" obtain obj where obj: "fmlookup h (last nodeStack) = Some obj"
      by (auto simp: mark.simps [of seq h nodeStack] Let_def split: option.splits)
    show ?thesis
    proof (cases "gcSequence obj \<noteq> seq")
      case True
      with False obj "1.prems"
      have m: "mark seq (fmupd (last nodeStack) (obj\<lparr>gcSequence := seq\<rparr>) h)
                 (butlast nodeStack @ gcConnections obj) = Inr h'"
        by (simp add: mark.simps [of seq h nodeStack] Let_def)
      show ?thesis
        using "1.IH"(1) [OF False refl refl obj True m] mark_inv_stamp [OF "1.prems"(2) False obj] .
    next
      case stamped_already: False
      with False obj "1.prems"
      have m: "mark seq h (butlast nodeStack) = Inr h'"
        by (simp add: mark.simps [of seq h nodeStack] Let_def)
      show ?thesis
        using "1.IH"(2) [OF False refl refl obj stamped_already m]
          mark_inv_skip [OF "1.prems"(2) False obj] stamped_already by simp
    qed
  qed
qed

lemma mark_inv_closed:
  assumes "mark_inv seq S h []"
  shows "marked seq h = (edges h)\<^sup>* `` S"
proof
  show "marked seq h \<subseteq> (edges h)\<^sup>* `` S"
    using assms by (simp add: mark_inv_def)
  have start: "S \<subseteq> marked seq h"
    using assms by (simp add: mark_inv_def)
  have step: "\<And>x y. x \<in> marked seq h \<Longrightarrow> (x, y) \<in> edges h \<Longrightarrow> y \<in> marked seq h"
    using assms unfolding mark_inv_def by auto
  show "(edges h)\<^sup>* `` S \<subseteq> marked seq h"
  proof
    fix y
    assume "y \<in> (edges h)\<^sup>* `` S"
    then obtain r where r: "r \<in> S" and p: "(r, y) \<in> (edges h)\<^sup>*"
      by blast
    from p show "y \<in> marked seq h"
    proof (induction rule: rtrancl_induct)
      case base
      with r start show ?case by blast
    next
      case (step y z)
      then show ?case using \<open>\<And>x y. x \<in> marked seq h \<Longrightarrow> (x, y) \<in> edges h \<Longrightarrow> y \<in> marked seq h\<close> by blast
    qed
  qed
qed

lemma mark_inv_init:
  assumes "marked seq h = {}"
  shows "mark_inv seq (set st) h st"
  using assms by (auto simp: mark_inv_def)

lemma seed_roots_set:
  "seed_roots h xs st = Inr st' \<Longrightarrow>
   set st' = set st \<union> {x \<in> set xs. \<exists>obj. fmlookup h x = Some obj \<and> gcRootCount obj \<noteq> 0}"
proof (induction xs arbitrary: st)
  case Nil
  then show ?case by simp
next
  case (Cons x xs)
  from Cons.prems obtain obj where obj: "fmlookup h x = Some obj"
    by (auto split: option.splits)
  let ?R = "{y \<in> set xs. \<exists>obj. fmlookup h y = Some obj \<and> gcRootCount obj \<noteq> 0}"
  show ?case
  proof (cases "gcRootCount obj \<noteq> 0")
    case True
    with Cons.prems obj have "seed_roots h xs (st @ [x]) = Inr st'"
      by simp
    then have "set st' = set (st @ [x]) \<union> ?R"
      by (rule Cons.IH)
    moreover have "{y \<in> set (x # xs). \<exists>obj. fmlookup h y = Some obj \<and> gcRootCount obj \<noteq> 0}
        = insert x ?R"
      using obj True by fastforce
    ultimately show ?thesis
      by simp
  next
    case False
    with Cons.prems obj have "seed_roots h xs st = Inr st'"
      by simp
    then have "set st' = set st \<union> ?R"
      by (rule Cons.IH)
    moreover have "{y \<in> set (x # xs). \<exists>obj. fmlookup h y = Some obj \<and> gcRootCount obj \<noteq> 0} = ?R"
      using obj False by fastforce
    ultimately show ?thesis
      by simp
  qed
qed

lemma seed_roots_live:
  "seed_roots h xs st = Inr st' \<Longrightarrow> set xs \<subseteq> fmdom' h"
proof (induction xs arbitrary: st)
  case Nil
  then show ?case by simp
next
  case (Cons x xs)
  from Cons.prems obtain obj where obj: "fmlookup h x = Some obj"
    by (auto split: option.splits)
  with Cons.prems
  have "seed_roots h xs (if gcRootCount obj \<noteq> 0 then st @ [x] else st) = Inr st'"
    by simp
  from Cons.IH [OF this] obj show ?case
    by (auto simp: fmlookup_dom'_iff)
qed

section \<open>Facts about the sweep and about Collect\<close>

lemma sweep_result:
  "sweep xs nn s = Inr (nn', s') \<Longrightarrow> distinct xs \<Longrightarrow>
   nn' = nn |\<union>| fset_of_list (filter (\<lambda>x. x \<in> marked (sequence s) (heap s)) xs) \<and>
   destroyed s' = destroyed s @ filter (\<lambda>x. x \<notin> marked (sequence s) (heap s)) xs \<and>
   (\<forall>y. fmlookup (heap s') y =
        (if y \<in> set xs \<and> y \<notin> marked (sequence s) (heap s) then None else fmlookup (heap s) y)) \<and>
   eventQueue s' = eventQueue s \<and> nodes s' = nodes s \<and> inGC s' = inGC s \<and>
   sequence s' = sequence s \<and> graphChanged s' = graphChanged s \<and> set xs \<subseteq> fmdom' (heap s)"
proof (induction xs arbitrary: nn s)
  case Nil
  then show ?case by simp
next
  case (Cons x xs)
  from Cons.prems obtain obj where obj: "fmlookup (heap s) x = Some obj"
    by (auto split: option.splits)
  have dx: "x \<notin> set xs" "distinct xs"
    using Cons.prems(2) by simp_all
  show ?case
  proof (cases "gcSequence obj \<noteq> sequence s")
    case True
    let ?s = "delete_node s x"
    from True obj Cons.prems have sw: "sweep xs nn ?s = Inr (nn', s')"
      by simp
    have same: "\<And>y. y \<in> set xs \<Longrightarrow>
        (y \<in> marked (sequence ?s) (heap ?s)) = (y \<in> marked (sequence s) (heap s))"
      using dx by (auto simp: marked_def delete_node_def)
    have f1: "filter (\<lambda>x. x \<in> marked (sequence ?s) (heap ?s)) xs
        = filter (\<lambda>x. x \<in> marked (sequence s) (heap s)) xs"
      using same by (auto intro: filter_cong)
    have f2: "filter (\<lambda>x. x \<notin> marked (sequence ?s) (heap ?s)) xs
        = filter (\<lambda>x. x \<notin> marked (sequence s) (heap s)) xs"
      using same by (auto intro: filter_cong)
    have xm: "x \<notin> marked (sequence s) (heap s)"
      using obj True by (simp add: marked_def)
    note IH = Cons.IH [OF sw dx(2), unfolded f1 f2]
    have look: "\<forall>y. fmlookup (heap s') y =
        (if y \<in> set (x # xs) \<and> y \<notin> marked (sequence s) (heap s) then None else fmlookup (heap s) y)"
    proof
      fix y
      show "fmlookup (heap s') y =
        (if y \<in> set (x # xs) \<and> y \<notin> marked (sequence s) (heap s) then None else fmlookup (heap s) y)"
      proof (cases "y = x")
        case True
        with IH dx xm show ?thesis
          by (simp add: delete_node_def)
      next
        case False
        then have "(y \<in> marked (sequence ?s) (heap ?s)) = (y \<in> marked (sequence s) (heap s))"
          by (auto simp: marked_def delete_node_def)
        with IH False show ?thesis
          by (simp add: delete_node_def)
      qed
    qed
    have dom: "set (x # xs) \<subseteq> fmdom' (heap s)"
      using IH obj by (auto simp: delete_node_def fmlookup_dom'_iff)
    from IH xm look dom show ?thesis
      by (simp add: delete_node_def)
  next
    case False
    from False obj Cons.prems have sw: "sweep xs (finsert x nn) s = Inr (nn', s')"
      by simp
    have xm: "x \<in> marked (sequence s) (heap s)"
      using obj False by (simp add: marked_def)
    note IH = Cons.IH [OF sw dx(2)]
    have dom: "set (x # xs) \<subseteq> fmdom' (heap s)"
      using IH obj by (auto simp: fmlookup_dom'_iff)
    from IH xm dom show ?thesis
      by auto
  qed
qed

lemma Collect_sweep_result:
  assumes "Collect_sweep s = Inr s'"
  shows "nodes s' = ffilter (\<lambda>x. x \<in> marked (sequence s) (heap s)) (nodes s) \<and>
         destroyed s' = destroyed s @
           filter (\<lambda>x. x \<notin> marked (sequence s) (heap s)) (sorted_list_of_fset (nodes s)) \<and>
         (\<forall>y. fmlookup (heap s') y =
           (if y |\<in>| nodes s \<and> y \<notin> marked (sequence s) (heap s) then None else fmlookup (heap s) y)) \<and>
         eventQueue s' = eventQueue s \<and> inGC s' = inGC s \<and> sequence s' = sequence s \<and>
         \<not> graphChanged s' \<and> fset (nodes s) \<subseteq> fmdom' (heap s)"
proof -
  from assms obtain nn s1 where
    sw: "sweep (sorted_list_of_fset (nodes s)) {||} s = Inr (nn, s1)"
    and s': "s' = s1\<lparr>nodes := nn, graphChanged := False\<rparr>"
    by (auto simp: Collect_sweep_def split: sum.splits)
  have d: "distinct (sorted_list_of_fset (nodes s))"
    by (simp add: sorted_list_of_fset.rep_eq)
  note R = sweep_result [OF sw d]
  have "nn = ffilter (\<lambda>x. x \<in> marked (sequence s) (heap s)) (nodes s)"
    using R by (auto simp: fset_of_list_elem)
  with R s' show ?thesis
    by simp
qed

lemma Collect_mark_shape:
  assumes "Collect_mark s = Inr s'"
  shows "\<exists>h. s' = s\<lparr>sequence := sequence s + 1, heap := h\<rparr> \<and> stamped (sequence s + 1) (heap s) h"
proof -
  from assms obtain st h where
    mk: "mark (sequence s + 1) (heap s) st = Inr h"
    and s': "s' = s\<lparr>sequence := sequence s + 1, heap := h\<rparr>"
    by (auto simp: Collect_mark_def Let_def split: sum.splits)
  with mark_stamped [OF mk] show ?thesis
    by blast
qed

lemma stamps_fresh_unmarked: "stamps_fresh s \<Longrightarrow> marked (sequence s + 1) (heap s) = {}"
  by (auto simp: stamps_fresh_def marked_def)

lemma rooted_seeds:
  "root_counts_nonneg s \<Longrightarrow>
   {x. x |\<in>| nodes s \<and> (\<exists>obj. fmlookup (heap s) x = Some obj \<and> gcRootCount obj \<noteq> 0)} = rooted s"
  by (force simp: root_counts_nonneg_def rooted_def)

lemma Collect_mark_reachable:
  assumes cm: "Collect_mark s = Inr s'" and fresh: "stamps_fresh s" and nonneg: "root_counts_nonneg s"
  shows "marked (sequence s') (heap s') = reachable s"
proof -
  from cm obtain st h where
    sd: "seed_roots (heap s) (sorted_list_of_fset (nodes s)) [] = Inr st"
    and mk: "mark (sequence s + 1) (heap s) st = Inr h"
    and s': "s' = s\<lparr>sequence := sequence s + 1, heap := h\<rparr>"
    by (auto simp: Collect_mark_def Let_def split: sum.splits)
  have S: "set st = rooted s"
    using seed_roots_set [OF sd] rooted_seeds [OF nonneg] by auto
  have "mark_inv (sequence s + 1) (set st) h []"
    by (rule mark_inv_final [OF mk mark_inv_init [OF stamps_fresh_unmarked [OF fresh]]])
  then have "marked (sequence s + 1) h = (edges h)\<^sup>* `` set st"
    by (rule mark_inv_closed)
  with S s' stamped_edges [OF mark_stamped [OF mk]] show ?thesis
    by (simp add: reachable_def)
qed

lemma count_list_filter_distinct:
  "distinct xs \<Longrightarrow> x \<in> set xs \<Longrightarrow> P x \<Longrightarrow> count_list (filter P xs) x = 1"
  by (induction xs) (auto simp: count_list_0_iff)

lemma count_list_filter_out: "\<not> P x \<Longrightarrow> count_list (filter P xs) x = 0"
  by (simp add: count_list_0_iff)

lemma ProcessEvent_nonneg:
  "ProcessEvent s e = Inr s' \<Longrightarrow> root_counts_nonneg s \<Longrightarrow> root_counts_nonneg s'"
  by (cases e) (auto simp: root_counts_nonneg_def Let_def split: option.splits if_splits)

lemma replay_nonneg:
  "replay s es = Inr s' \<Longrightarrow> root_counts_nonneg s \<Longrightarrow> root_counts_nonneg s'"
proof (induction es arbitrary: s)
  case Nil
  then show ?case by simp
next
  case (Cons e es)
  from Cons.prems(1) obtain s1 where
    s1: "ProcessEvent (s\<lparr>graphChanged := True\<rparr>) e = Inr s1" and r: "replay s1 es = Inr s'"
    by (auto split: sum.splits)
  have "root_counts_nonneg (s\<lparr>graphChanged := True\<rparr>)"
    using Cons.prems(2) by (simp add: root_counts_nonneg_def)
  from Cons.IH [OF r ProcessEvent_nonneg [OF s1 this]] show ?case .
qed

lemma ProcessEvents'_nonneg:
  "ProcessEvents' s = Inr s' \<Longrightarrow> root_counts_nonneg s \<Longrightarrow> root_counts_nonneg s'"
  using replay_nonneg [of "s\<lparr>eventQueue := []\<rparr>" "eventQueue s" s']
  by (simp add: ProcessEvents'_replay root_counts_nonneg_def)

lemma frame_stamps_fresh: "frame s s' \<Longrightarrow> stamps_fresh s \<Longrightarrow> stamps_fresh s'"
  unfolding frame_def stamps_fresh_def by (auto; metis)

lemma Collect_cases:
  assumes "Collect t s = Inr s'"
  obtains s1 where "ProcessEvents' (Collect_enter t s) = Inr s1" "\<not> graphChanged s1"
      "s' = Collect_leave t s1"
  | s1 s2 s3 where "ProcessEvents' (Collect_enter t s) = Inr s1" "graphChanged s1"
      "Collect_mark s1 = Inr s2" "Collect_sweep s2 = Inr s3" "s' = Collect_leave t s3"
  using assms by (auto simp: Collect_def split: sum.splits if_splits)

lemmas example_eval =
  example_garbage_def new_object_def new_Collectable_def Collector_init_def
  Collect_def Collect_enter_def Collect_leave_def Collect_mark_def Collect_sweep_def
  ProcessEvents'_replay INT_MAX_def INT_MIN_def mark.simps delete_node_def Let_def
  sorted_list_of_fset.rep_eq

lemma Collect_clean:
  assumes "Collect t s = Inr s'"
  shows "eventQueue s' = [] \<and> \<not> graphChanged s' \<and> inGC s' t = Some False"
  using assms
proof (cases rule: Collect_cases)
  case (1 s1)
  with ProcessEvents'_drains [OF 1(1)] show ?thesis
    by (simp add: Collect_leave_def)
next
  case (2 s1 s2 s3)
  from Collect_mark_shape [OF 2(3)] ProcessEvents'_drains [OF 2(1)] have "eventQueue s2 = []"
    by auto
  with Collect_sweep_result [OF 2(4)] 2(5) show ?thesis
    by (simp add: Collect_leave_def)
qed

lemma Collect_of_clean:
  assumes "eventQueue s = []" and "\<not> graphChanged s"
  shows "Collect t s = Inr (s\<lparr>inGC := (inGC s)(t \<mapsto> False)\<rparr>)"
proof -
  have "ProcessEvents' (Collect_enter t s) = Inr (Collect_enter t s)"
    using assms by (intro ProcessEvents'_empty) (simp add: Collect_enter_def)
  with assms show ?thesis
    by (simp add: Collect_def Collect_enter_def Collect_leave_def)
qed

lemma ProcessEvent_never_rooted:
  "ProcessEvent s e = Inr s' \<Longrightarrow> e \<noteq> AddRoot x \<Longrightarrow> x |\<notin>| nodes s \<Longrightarrow> x |\<notin>| nodes s'"
  by (cases e) (auto simp: Let_def split: option.splits if_splits)

lemma replay_never_rooted:
  "replay s es = Inr s' \<Longrightarrow> AddRoot x \<notin> set es \<Longrightarrow> x |\<notin>| nodes s \<Longrightarrow> x |\<notin>| nodes s'"
proof (induction es arbitrary: s)
  case Nil
  then show ?case by simp
next
  case (Cons e es)
  from Cons.prems(1) obtain s1 where
    s1: "ProcessEvent (s\<lparr>graphChanged := True\<rparr>) e = Inr s1" and r: "replay s1 es = Inr s'"
    by (auto split: sum.splits)
  have "e \<noteq> AddRoot x" "AddRoot x \<notin> set es"
    using Cons.prems(2) by auto
  moreover have "x |\<notin>| nodes (s\<lparr>graphChanged := True\<rparr>)"
    using Cons.prems(3) by simp
  ultimately show ?case
    using ProcessEvent_never_rooted [OF s1] Cons.IH [OF r] by blast
qed

lemma spared_trans: "spared x s s1 \<Longrightarrow> spared x s1 s2 \<Longrightarrow> spared x s s2"
  by (simp add: spared_def)

lemma ProcessEvents'_spared:
  assumes "ProcessEvents' s = Inr s'" and "x |\<notin>| nodes s" and "AddRoot x \<notin> set (eventQueue s)"
  shows "spared x s s'"
proof -
  have "x |\<notin>| nodes s'"
    using replay_never_rooted [of "s\<lparr>eventQueue := []\<rparr>" "eventQueue s" s' x] assms
    by (simp add: ProcessEvents'_replay)
  with ProcessEvents'_frame [OF assms(1)] ProcessEvents'_drains [OF assms(1)] show ?thesis
    by (simp add: spared_def frame_def)
qed

lemma Collect_spared:
  assumes col: "Collect t s = Inr s'" and x: "x |\<notin>| nodes s" and q: "AddRoot x \<notin> set (eventQueue s)"
  shows "spared x s s'"
  using col
proof (cases rule: Collect_cases)
  case (1 s1)
  from ProcessEvents'_spared [OF 1(1)] x q have "spared x (Collect_enter t s) s1"
    by (simp add: Collect_enter_def)
  with 1(3) show ?thesis
    by (simp add: spared_def Collect_enter_def Collect_leave_def)
next
  case (2 s1 s2 s3)
  from ProcessEvents'_spared [OF 2(1)] x q have a: "spared x (Collect_enter t s) s1"
    by (simp add: Collect_enter_def)
  from Collect_mark_shape [OF 2(3)] obtain h where
    s2: "s2 = s1\<lparr>sequence := sequence s1 + 1, heap := h\<rparr>"
    and stp: "stamped (sequence s1 + 1) (heap s1) h"
    by blast
  have b: "spared x s1 s2"
    using a s2 stamped_dom [OF stp] by (simp add: spared_def)
  note SW = Collect_sweep_result [OF 2(4)]
  have xs2: "x |\<notin>| nodes s2"
    using b by (simp add: spared_def)
  then have "count_list (filter (\<lambda>x. x \<notin> marked (sequence s2) (heap s2))
      (sorted_list_of_fset (nodes s2))) x = 0"
    by (simp add: count_list_0_iff)
  with SW xs2 b have c: "spared x s2 s3"
    by (auto simp: spared_def fmlookup_dom_iff)
  from a b c have "spared x (Collect_enter t s) s3"
    by (blast intro: spared_trans)
  with 2(5) show ?thesis
    by (simp add: spared_def Collect_enter_def Collect_leave_def)
qed

lemma PushEvent'_spared:
  assumes "PushEvent' s e = Some s'" and "e \<noteq> AddRoot x" and "x |\<notin>| nodes s"
    and "AddRoot x \<notin> set (eventQueue s)"
  shows "spared x s s'"
  using PushEvent'_Some_room [OF assms(1)] assms
  by (simp add: PushEvent'_room) (auto simp: spared_def)

lemma sweep_inGC: "sweep xs nn s = Inr (nn', s') \<Longrightarrow> inGC s' = inGC s"
proof (induction xs arbitrary: nn s)
  case Nil
  then show ?case by simp
next
  case (Cons x xs)
  then show ?case
    by (fastforce simp: delete_node_def split: option.splits if_splits)
qed

text \<open>
  An Edge handle destroyed by the sweeping thread at any point of the sweep emits
  nothing and changes nothing.
\<close>

lemma EdgePtr_dtor_during_sweep:
  assumes "ProcessEvents' (Collect_enter t s) = Inr s1" and "Collect_mark s1 = Inr s2"
    and "sweep xs nn s2 = Inr (nn', s3)"
  shows "EdgePtr_dtor t s3 p = Some s3"
proof -
  have "inGC s3 t = Some True"
    using ProcessEvents'_frame [OF assms(1)] Collect_mark_shape [OF assms(2)] sweep_inGC [OF assms(3)]
    by (auto simp: frame_def Collect_enter_def)
  then show ?thesis
    by (simp add: EdgePtr_dtor_def InGC_def)
qed

lemma replay_inGC: "replay s es = Inr s' \<Longrightarrow> inGC s' = inGC s"
  using replay_frame [of s es s'] by (simp add: frame_def)

lemma flags_during_iff:
  "flags_during t s sx \<longleftrightarrow> inGC sx = (inGC s)(t \<mapsto> True)"
  by (auto simp: flags_during_def InGC_def fun_eq_iff split: option.splits)

lemma Collect_inGC:
  assumes "Collect t s = Inr s'"
  shows "inGC s' = (inGC s)(t \<mapsto> False)"
  using assms
proof (cases rule: Collect_cases)
  case (1 s1)
  with ProcessEvents'_frame [OF 1(1)] show ?thesis
    by (simp add: frame_def Collect_enter_def Collect_leave_def)
next
  case (2 s1 s2 s3)
  with ProcessEvents'_frame [OF 2(1)] Collect_mark_shape [OF 2(3)] Collect_sweep_result [OF 2(4)]
  show ?thesis
    by (auto simp: frame_def Collect_enter_def Collect_leave_def)
qed

lemma PushEvent'_inGC: "PushEvent' s e = Some s' \<Longrightarrow> inGC s' = inGC s"
  using PushEvent'_frame [of s e s'] by (simp add: frame_def)

lemma run_no_thread_in_collector:
  "run s acts = Some (Inr s') \<Longrightarrow> no_thread_in_collector s \<Longrightarrow> no_thread_in_collector s'"
proof (induction acts arbitrary: s)
  case Nil
  then show ?case by simp
next
  case (Cons act acts)
  show ?case
  proof (cases act)
    case (Emit e)
    with Cons.prems obtain s1 where s1: "PushEvent' s e = Some s1" and r: "run s1 acts = Some (Inr s')"
      by (auto split: option.splits)
    have "no_thread_in_collector s1"
      using PushEvent'_inGC [OF s1] Cons.prems(2) by (simp add: no_thread_in_collector_def)
    then show ?thesis
      by (rule Cons.IH [OF r])
  next
    case CallProcessEvents
    with Cons.prems obtain s1 where s1: "ProcessEvents' s = Inr s1" and r: "run s1 acts = Some (Inr s')"
      by (auto simp: ProcessEvents_def split: sum.splits)
    have "no_thread_in_collector s1"
      using ProcessEvents'_frame [OF s1] Cons.prems(2) by (simp add: no_thread_in_collector_def frame_def)
    then show ?thesis
      by (rule Cons.IH [OF r])
  next
    case (CallCollect t)
    with Cons.prems obtain s1 where s1: "Collect t s = Inr s1" and r: "run s1 acts = Some (Inr s')"
      by (auto split: sum.splits)
    have "no_thread_in_collector s1"
      using Collect_inGC [OF s1] Cons.prems(2) by (simp add: no_thread_in_collector_def)
    then show ?thesis
      by (rule Cons.IH [OF r])
  qed
qed

lemma EdgePtr_dtor_no_thread_in_collector:
  assumes "EdgePtr_dtor t s p = Some s'" and "no_thread_in_collector s"
  shows "no_thread_in_collector s'"
proof -
  obtain f s1 where i: "InGC t s = (f, s1)"
    by (cases "InGC t s")
  have n1: "no_thread_in_collector s1"
    using i assms(2)
    by (auto simp: InGC_def no_thread_in_collector_def split: option.splits if_splits)
  show ?thesis
  proof (cases "f \<or> edge_ptr p = 0")
    case True
    with assms(1) i n1 show ?thesis
      by (auto simp: EdgePtr_dtor_def EdgePtr_Release_def split: if_splits)
  next
    case False
    with assms(1) i have "PushEvent' s1 (Disconnect (edge_owner p) (edge_ptr p)) = Some s'"
      by (simp add: EdgePtr_dtor_def EdgePtr_Release_def RemoveEdge_def)
    from PushEvent'_inGC [OF this] n1 show ?thesis
      by (simp add: no_thread_in_collector_def)
  qed
qed

lemma replay_append_Inl: "replay s xs = Inl err \<Longrightarrow> replay s (xs @ ys) = Inl err"
  by (simp add: replay_append)

lemma replay_append_Inr: "replay s xs = Inr s1 \<Longrightarrow> replay s (xs @ ys) = replay s1 ys"
  by (simp add: replay_append)

lemma run_then_drain:
  "run s (acts @ [CallProcessEvents]) = Some r \<Longrightarrow> \<forall>act \<in> set acts. \<not> is_collect act \<Longrightarrow>
   r = replay (s\<lparr>eventQueue := []\<rparr>) (eventQueue s @ emitted acts)"
proof (induction acts arbitrary: s)
  case Nil
  then show ?case
    by (auto simp: ProcessEvents_def ProcessEvents'_replay split: sum.splits)
next
  case (Cons act acts)
  have rest: "\<forall>act \<in> set acts. \<not> is_collect act"
    using Cons.prems(2) by simp
  show ?case
  proof (cases act)
    case (Emit e)
    with Cons.prems(1) obtain s1 where s1: "PushEvent' s e = Some s1"
      and r: "run s1 (acts @ [CallProcessEvents]) = Some r"
      by (auto split: option.splits)
    have "s1 = s\<lparr>eventQueue := eventQueue s @ [e]\<rparr>"
      using s1 PushEvent'_Some_room [OF s1] by (simp add: PushEvent'_room)
    with Cons.IH [OF r rest] Emit show ?thesis
      by simp
  next
    case CallProcessEvents
    show ?thesis
    proof (cases "ProcessEvents' s")
      case (Inl err)
      with Cons.prems(1) CallProcessEvents have "r = Inl err"
        by (simp add: ProcessEvents_def)
      moreover have "replay (s\<lparr>eventQueue := []\<rparr>) (eventQueue s) = Inl err"
        using Inl by (simp add: ProcessEvents'_replay)
      ultimately show ?thesis
        using CallProcessEvents by (simp add: replay_append_Inl)
    next
      case (Inr s1)
      with Cons.prems(1) CallProcessEvents have r: "run s1 (acts @ [CallProcessEvents]) = Some r"
        by (simp add: ProcessEvents_def)
      have q1: "eventQueue s1 = []"
        by (rule ProcessEvents'_drains [OF Inr])
      have "replay (s\<lparr>eventQueue := []\<rparr>) (eventQueue s) = Inr s1"
        using Inr by (simp add: ProcessEvents'_replay)
      then have "replay (s\<lparr>eventQueue := []\<rparr>) (eventQueue s @ emitted acts) = replay s1 (emitted acts)"
        by (rule replay_append_Inr)
      moreover have same: "s1\<lparr>eventQueue := []\<rparr> = s1"
        using q1 by simp
      moreover have "r = replay (s1\<lparr>eventQueue := []\<rparr>) (eventQueue s1 @ emitted acts)"
        by (rule Cons.IH [OF r rest])
      then have "r = replay s1 (emitted acts)"
        by (simp only: same q1 append_Nil)
      ultimately show ?thesis
        using CallProcessEvents by simp
    qed
  next
    case (CallCollect t)
    with Cons.prems(2) show ?thesis by simp
  qed
qed

lemma run_returns:
  "length (eventQueue s) + length (emitted acts) \<le> queue_capacity \<Longrightarrow> \<exists>r. run s acts = Some r"
proof (induction acts arbitrary: s)
  case Nil
  then show ?case by simp
next
  case (Cons act acts)
  show ?case
  proof (cases act)
    case (Emit e)
    with Cons.prems have room: "length (eventQueue s) < queue_capacity"
      by simp
    have "length (eventQueue (s\<lparr>eventQueue := eventQueue s @ [e]\<rparr>)) + length (emitted acts)
        \<le> queue_capacity"
      using Cons.prems Emit by simp
    from Cons.IH [OF this] Emit room show ?thesis
      by (simp add: PushEvent'_room)
  next
    case CallProcessEvents
    show ?thesis
    proof (cases "ProcessEvents' s")
      case (Inl err)
      with CallProcessEvents show ?thesis
        by (simp add: ProcessEvents_def)
    next
      case (Inr s1)
      have "length (eventQueue s1) + length (emitted acts) \<le> queue_capacity"
        using ProcessEvents'_drains [OF Inr] Cons.prems CallProcessEvents by simp
      from Cons.IH [OF this] Inr CallProcessEvents show ?thesis
        by (simp add: ProcessEvents_def)
    qed
  next
    case (CallCollect t)
    show ?thesis
    proof (cases "Collect t s")
      case (Inl err)
      with CallCollect show ?thesis
        by simp
    next
      case (Inr s1)
      have "length (eventQueue s1) + length (emitted acts) \<le> queue_capacity"
        using Collect_clean [OF Inr] Cons.prems CallCollect by simp
      from Cons.IH [OF this] Inr CallCollect show ?thesis
        by simp
    qed
  qed
qed

section \<open>Facts about the Edge handle\<close>

text \<open>
  Construction from a Root handle and both assignments emit the events of
  \<open>edge_events\<close>; a fresh handle has a null current target.
\<close>

lemma EdgePtr_Release_events:
  "length (eventQueue s) < queue_capacity \<Longrightarrow>
   EdgePtr_Release s p =
     Some (s\<lparr>eventQueue := eventQueue s @
       (if edge_ptr p \<noteq> 0 then [Disconnect (edge_owner p) (edge_ptr p)] else [])\<rparr>)"
  by (simp add: EdgePtr_Release_def RemoveEdge_def PushEvent'_room)

lemma EdgePtr_Retain_events:
  "length (eventQueue s) < queue_capacity \<Longrightarrow>
   EdgePtr_Retain s p =
     Some (s\<lparr>eventQueue := eventQueue s @
       (if edge_ptr p \<noteq> 0 then [Connect (edge_owner p) (edge_ptr p)] else [])\<rparr>)"
  by (simp add: EdgePtr_Retain_def AddEdge_def PushEvent'_room)

lemma EdgePtr_ctor_root_events:
  assumes "owner \<noteq> 0" and "length (eventQueue s) < queue_capacity"
  shows "EdgePtr_ctor_root s owner other =
     Some (Inr (\<lparr>edge_owner = owner, edge_ptr = root_ptr other\<rparr>,
       s\<lparr>eventQueue := eventQueue s @ edge_events owner 0 (root_ptr other)\<rparr>))"
  using assms by (simp add: EdgePtr_ctor_root_def EdgePtr_Retain_events edge_events_def)

lemma EdgePtr_assign_events:
  assumes "edge_owner p = edge_owner other" and "length (eventQueue s) + 2 \<le> queue_capacity"
  shows "EdgePtr_assign s p other =
     Some (Inr (p\<lparr>edge_ptr := edge_ptr other\<rparr>,
       s\<lparr>eventQueue := eventQueue s @ edge_events (edge_owner p) (edge_ptr p) (edge_ptr other)\<rparr>))"
  using assms
  by (simp add: EdgePtr_assign_def EdgePtr_Retain_events EdgePtr_Release_events edge_events_def)

lemma EdgePtr_assign_root_events:
  assumes "length (eventQueue s) + 2 \<le> queue_capacity"
  shows "EdgePtr_assign_root s p other =
     Some (Inr (p\<lparr>edge_ptr := root_ptr other\<rparr>,
       s\<lparr>eventQueue := eventQueue s @ edge_events (edge_owner p) (edge_ptr p) (root_ptr other)\<rparr>))"
  using assms
  by (simp add: EdgePtr_assign_root_def EdgePtr_Retain_events EdgePtr_Release_events edge_events_def)

text \<open>The copy constructor of the Root handle, for comparison, emits \<open>AddRoot\<close>.\<close>

lemma RootPtr_copy_ctor_events:
  assumes "root_ptr other \<noteq> 0" and "length (eventQueue s) < queue_capacity"
  shows "RootPtr_copy_ctor s other =
     Some (\<lparr>root_ptr = root_ptr other\<rparr>, s\<lparr>eventQueue := eventQueue s @ [AddRoot (root_ptr other)]\<rparr>)"
  using assms
  by (simp add: RootPtr_copy_ctor_def RootPtr_Retain_def Collector_AddRoot_def PushEvent'_room)

text \<open>
  The copy constructor at work, as in \<^verbatim>\<open>_edges.push_back(EdgePtr<Node>(this, node))\<close>: the
  temporary emits \<open>Connect\<close>, the copy emits nothing, the destructor of the temporary
  emits \<open>Disconnect\<close>. The mirror then has no edge for the live copy, and the destruction
  of the copy by a mutator makes the replay fail on its assertion.
\<close>

lemma EdgePtr_copy_breaks_replay:
  "\<exists>p s1 q s2 s3 s4.
     EdgePtr_ctor_root (new_object (new_object Collector_init 1) 2) 1 \<lparr>root_ptr = 2\<rparr>
       = Some (Inr (p, s1)) \<and>
     EdgePtr_copy_ctor s1 p = Some (Inr (q, s2)) \<and>
     EdgePtr_dtor 7 s2 p = Some s3 \<and>
     eventQueue s3 = [Connect 1 2, Disconnect 1 2] \<and> edge_ptr q = 2 \<and>
     EdgePtr_dtor 7 s3 q = Some s4 \<and>
     ProcessEvents s4 = Inl AssertConnection"
  by (simp add: EdgePtr_ctor_root_def EdgePtr_copy_ctor_def EdgePtr_dtor_def InGC_def
      EdgePtr_Retain_def EdgePtr_Release_def AddEdge_def RemoveEdge_def PushEvent'_room
      queue_capacity_def new_object_def new_Collectable_def Collector_init_def
      ProcessEvents_def ProcessEvents'_replay vector_erase_def)

section \<open>Invariants of the states the collector reaches\<close>

text \<open>
  Stamps bounded by the sequence number and root counts that are not negative hold in
  the initial state and are kept by allocation, by \<^verbatim>\<open>ProcessEvents\<close> and, as long as
  \<^verbatim>\<open>_sequence\<close> does not wrap around, by \<^verbatim>\<open>Collect\<close>; bounded stamps are fresh.
\<close>

lemma invariants_init: "stamps_bounded Collector_init \<and> root_counts_nonneg Collector_init"
  by (simp add: stamps_bounded_def root_counts_nonneg_def Collector_init_def)

lemma invariants_new_object:
  "stamps_bounded s \<Longrightarrow> root_counts_nonneg s \<Longrightarrow>
   stamps_bounded (new_object s x) \<and> root_counts_nonneg (new_object s x)"
  by (auto simp: stamps_bounded_def root_counts_nonneg_def new_object_def new_Collectable_def)

lemma frame_stamps_bounded: "frame s s' \<Longrightarrow> stamps_bounded s \<Longrightarrow> stamps_bounded s'"
  unfolding frame_def stamps_bounded_def
proof (intro allI impI)
  fix x obj'
  assume f: "destroyed s' = destroyed s \<and> nodes s |\<subseteq>| nodes s' \<and> fmdom (heap s') = fmdom (heap s) \<and>
     sequence s' = sequence s \<and> inGC s' = inGC s \<and>
     (\<forall>x obj'. fmlookup (heap s') x = Some obj' \<longrightarrow>
        (\<exists>obj. fmlookup (heap s) x = Some obj \<and> gcSequence obj' = gcSequence obj))"
    and b: "\<forall>x obj. fmlookup (heap s) x = Some obj \<longrightarrow> unat (gcSequence obj) \<le> unat (sequence s)"
    and l: "fmlookup (heap s') x = Some obj'"
  from f l obtain obj where "fmlookup (heap s) x = Some obj" "gcSequence obj' = gcSequence obj"
    by blast
  with b f show "unat (gcSequence obj') \<le> unat (sequence s')"
    by auto
qed

lemma stamps_bounded_fresh:
  assumes "stamps_bounded s" and "sequence s + 1 \<noteq> 0"
  shows "stamps_fresh s"
  unfolding stamps_fresh_def
proof (intro allI impI)
  fix x obj
  assume "fmlookup (heap s) x = Some obj"
  with assms(1) have "unat (gcSequence obj) \<le> unat (sequence s)"
    by (auto simp: stamps_bounded_def)
  moreover have "unat (sequence s + 1) = Suc (unat (sequence s))"
    using unatSuc [of "sequence s"] assms(2) by (simp add: add.commute)
  ultimately show "gcSequence obj \<noteq> sequence s + 1"
    by auto
qed

lemma invariants_ProcessEvents:
  assumes "ProcessEvents s = Inr s'" and "stamps_bounded s" and "root_counts_nonneg s"
  shows "stamps_bounded s' \<and> root_counts_nonneg s'"
  using assms ProcessEvents'_frame [of s s'] ProcessEvents'_nonneg [of s s']
  by (simp add: ProcessEvents_def frame_stamps_bounded)

lemma invariants_Collect:
  assumes col: "Collect t s = Inr s'" and b: "stamps_bounded s" and n: "root_counts_nonneg s"
    and nowrap: "sequence s + 1 \<noteq> 0"
  shows "stamps_bounded s' \<and> root_counts_nonneg s'"
  using col
proof (cases rule: Collect_cases)
  case (1 s1)
  have "stamps_bounded (Collect_enter t s)" "root_counts_nonneg (Collect_enter t s)"
    using b n by (simp_all add: stamps_bounded_def root_counts_nonneg_def Collect_enter_def)
  with ProcessEvents'_frame [OF 1(1)] ProcessEvents'_nonneg [OF 1(1)]
  have "stamps_bounded s1" "root_counts_nonneg s1"
    by (simp_all add: frame_stamps_bounded)
  with 1(3) show ?thesis
    by (simp add: stamps_bounded_def root_counts_nonneg_def Collect_leave_def)
next
  case (2 s1 s2 s3)
  have "stamps_bounded (Collect_enter t s)" "root_counts_nonneg (Collect_enter t s)"
    using b n by (simp_all add: stamps_bounded_def root_counts_nonneg_def Collect_enter_def)
  with ProcessEvents'_frame [OF 2(1)] ProcessEvents'_nonneg [OF 2(1)]
  have b1: "stamps_bounded s1" and n1: "root_counts_nonneg s1"
    by (simp_all add: frame_stamps_bounded)
  have seq1: "sequence s1 = sequence s"
    using ProcessEvents'_frame [OF 2(1)] by (simp add: frame_def Collect_enter_def)
  from Collect_mark_shape [OF 2(3)] obtain h where
    s2: "s2 = s1\<lparr>sequence := sequence s1 + 1, heap := h\<rparr>"
    and stp: "stamped (sequence s1 + 1) (heap s1) h"
    by blast
  have u: "unat (sequence s1 + 1) = Suc (unat (sequence s1))"
    using unatSuc [of "sequence s1"] nowrap seq1 by (simp add: add.commute)
  have inv2: "\<forall>x obj'. fmlookup h x = Some obj' \<longrightarrow>
      unat (gcSequence obj') \<le> unat (sequence s1 + 1) \<and> 0 \<le> gcRootCount obj'"
  proof (intro allI impI)
    fix x obj'
    assume l: "fmlookup h x = Some obj'"
    from stp have "rel_option
        (\<lambda>obj obj'. gcConnections obj' = gcConnections obj \<and> gcRootCount obj' = gcRootCount obj \<and>
           (gcSequence obj' = gcSequence obj \<or> gcSequence obj' = sequence s1 + 1))
        (fmlookup (heap s1) x) (fmlookup h x)"
      by (simp add: stamped_def)
    with l obtain obj where o: "fmlookup (heap s1) x = Some obj"
      "gcRootCount obj' = gcRootCount obj"
      "gcSequence obj' = gcSequence obj \<or> gcSequence obj' = sequence s1 + 1"
      by (cases "fmlookup (heap s1) x") auto
    from o(1) b1 n1 have "unat (gcSequence obj) \<le> unat (sequence s1)" "0 \<le> gcRootCount obj"
      by (auto simp: stamps_bounded_def root_counts_nonneg_def)
    with o u show "unat (gcSequence obj') \<le> unat (sequence s1 + 1) \<and> 0 \<le> gcRootCount obj'"
      by auto
  qed
  note SW = Collect_sweep_result [OF 2(4)]
  have "\<forall>x obj'. fmlookup (heap s') x = Some obj' \<longrightarrow>
      unat (gcSequence obj') \<le> unat (sequence s') \<and> 0 \<le> gcRootCount obj'"
  proof (intro allI impI)
    fix x obj'
    assume "fmlookup (heap s') x = Some obj'"
    with SW 2(5) s2 have "fmlookup h x = Some obj'" "sequence s' = sequence s1 + 1"
      by (auto simp: Collect_leave_def split: if_splits)
    with inv2 show "unat (gcSequence obj') \<le> unat (sequence s') \<and> 0 \<le> gcRootCount obj'"
      by simp
  qed
  then show ?thesis
    by (simp add: stamps_bounded_def root_counts_nonneg_def)
qed

section \<open>Edge handle destruction\<close>

text \<open>
  Claim C3. Destroying an Edge handle on thread \<open>t\<close>: when the in-collector flag of \<open>t\<close> is
  set, the destructor returns with the state untouched, so it emits no event, whatever
  the target; when the flag is not set (false, or not allocated yet) and the target is
  non-null, the destructor appends exactly the one event \<open>Disconnect owner target\<close> to the
  queue (there is room in the queue, so the push returns); a null handle leaves the queue
  as it is in either case.
\<close>

theorem EdgePtr_dtor_events:
  "(inGC s t = Some True \<longrightarrow> EdgePtr_dtor t s p = Some s) \<and>
   (inGC s t \<noteq> Some True \<and> edge_ptr p \<noteq> 0 \<and> length (eventQueue s) < queue_capacity \<longrightarrow>
      (\<exists>s'. EdgePtr_dtor t s p = Some s' \<and>
            eventQueue s' = eventQueue s @ [Disconnect (edge_owner p) (edge_ptr p)])) \<and>
   (edge_ptr p = 0 \<longrightarrow>
      (\<exists>s'. EdgePtr_dtor t s p = Some s' \<and> eventQueue s' = eventQueue s))"
  by (auto simp: EdgePtr_dtor_def InGC_def EdgePtr_Release_def RemoveEdge_def PushEvent'_room
      split: option.splits)

theorem EdgePtr_dtor_events_witness:
  "EdgePtr_dtor 0 (Collect_enter 0 Collector_init) \<lparr>edge_owner = 1, edge_ptr = 2\<rparr>
     = Some (Collect_enter 0 Collector_init) \<and>
   (\<exists>s'. EdgePtr_dtor 1 (Collect_enter 0 Collector_init) \<lparr>edge_owner = 1, edge_ptr = 2\<rparr> = Some s' \<and>
         eventQueue s' = [Disconnect 1 2]) \<and>
   (\<exists>s'. EdgePtr_dtor 1 (Collect_enter 0 Collector_init) \<lparr>edge_owner = 1, edge_ptr = 0\<rparr> = Some s' \<and>
         eventQueue s' = [])"
  using EdgePtr_dtor_events [of "Collect_enter 0 Collector_init" 0 "\<lparr>edge_owner = 1, edge_ptr = 2\<rparr>"]
    EdgePtr_dtor_events [of "Collect_enter 0 Collector_init" 1 "\<lparr>edge_owner = 1, edge_ptr = 2\<rparr>"]
    EdgePtr_dtor_events [of "Collect_enter 0 Collector_init" 1 "\<lparr>edge_owner = 1, edge_ptr = 0\<rparr>"]
  by (simp add: Collect_enter_def Collector_init_def queue_capacity_def)

section \<open>Replay of Disconnect\<close>

text \<open>
  Claim C6. Replaying the event \<open>Disconnect x y\<close> on a live object \<open>x\<close>: when \<open>y\<close> occurs in
  the connections of \<open>x\<close>, the replay returns, and the new connections are the old ones
  without the first occurrence of \<open>y\<close> (the entries before it, which hold no \<open>y\<close>, and all
  the entries after it, later occurrences of \<open>y\<close> included); nothing else changes but the
  emptied queue and the dirty flag. When \<open>y\<close> does not occur, the replay stops on the
  assertion "the connection must exist".
\<close>

theorem Disconnect_replay:
  assumes "eventQueue s = [Disconnect x y]" and "fmlookup (heap s) x = Some obj"
  shows "(y \<in> set (gcConnections obj) \<longrightarrow>
           (\<exists>pre post. gcConnections obj = pre @ y # post \<and> y \<notin> set pre \<and>
              ProcessEvents' s =
                Inr (s\<lparr>eventQueue := [], graphChanged := True,
                       heap := fmupd x (obj\<lparr>gcConnections := pre @ post\<rparr>) (heap s)\<rparr>))) \<and>
         (y \<notin> set (gcConnections obj) \<longrightarrow> ProcessEvents' s = Inl AssertConnection)"
proof (intro conjI impI)
  assume "y \<in> set (gcConnections obj)"
  then obtain pre post where
    split: "gcConnections obj = pre @ y # post" "y \<notin> set pre"
      "std_find (gcConnections obj) y = length pre"
    using std_find_present by blast
  have "ProcessEvents' s =
      Inr (s\<lparr>eventQueue := [], graphChanged := True,
             heap := fmupd x (obj\<lparr>gcConnections := pre @ post\<rparr>) (heap s)\<rparr>)"
    using assms split vector_erase_first [of y pre post]
    by (simp add: ProcessEvents'.simps [of s] ProcessEvents'.simps [of "_\<lparr>heap := _\<rparr>"] Let_def)
  with split show "\<exists>pre post. gcConnections obj = pre @ y # post \<and> y \<notin> set pre \<and>
      ProcessEvents' s =
        Inr (s\<lparr>eventQueue := [], graphChanged := True,
               heap := fmupd x (obj\<lparr>gcConnections := pre @ post\<rparr>) (heap s)\<rparr>)"
    by blast
next
  assume "y \<notin> set (gcConnections obj)"
  then show "ProcessEvents' s = Inl AssertConnection"
    using assms by (simp add: ProcessEvents'.simps [of s] Let_def std_find_absent)
qed

theorem Disconnect_replay_witness:
  "(\<exists>pre post. [2, 3, 2] = pre @ 2 # post \<and> 2 \<notin> set pre \<and>
      ProcessEvents' (example_heap\<lparr>eventQueue := [Disconnect 1 2]\<rparr>) =
      Inr (example_heap\<lparr>eventQueue := [], graphChanged := True,
             heap := fmupd 1 (example_obj\<lparr>gcConnections := pre @ post\<rparr>) (heap example_heap)\<rparr>)) \<and>
   ProcessEvents' (example_heap\<lparr>eventQueue := [Disconnect 1 4]\<rparr>) = Inl AssertConnection"
  using Disconnect_replay [of "example_heap\<lparr>eventQueue := [Disconnect 1 2]\<rparr>" 1 2 example_obj]
    Disconnect_replay [of "example_heap\<lparr>eventQueue := [Disconnect 1 4]\<rparr>" 1 4 example_obj]
  by (simp add: example_heap_def example_obj_def)

section \<open>Root counts\<close>

text \<open>
  Claim C7. When every \<open>RemoveRoot x\<close> of the pending events is matched by an earlier
  \<open>AddRoot x\<close> (one of the queue, or one replayed before and still counted in the object),
  the replay does not stop on the root-count assertion, and after it every live object,
  the registered ones among them, has a root count of at least \<open>0\<close>. Replaying a
  \<open>RemoveRoot x\<close> decrements the count of \<open>x\<close> and asserts that the new count is not
  negative: with a count of at least \<open>1\<close> the replay returns with the count one less, with
  a smaller count it stops on the assertion.
\<close>

theorem root_counts_after_replay:
  "(roots_matched s \<longrightarrow>
      ProcessEvents' s \<noteq> Inl AssertRootCount \<and>
      (\<forall>s'. ProcessEvents' s = Inr s' \<longrightarrow>
         (\<forall>x obj. fmlookup (heap s') x = Some obj \<longrightarrow> 0 \<le> gcRootCount obj))) \<and>
   (eventQueue s = [RemoveRoot x] \<and> fmlookup (heap s) x = Some obj \<and> INT_MIN < gcRootCount obj \<longrightarrow>
      ProcessEvents' s =
        (if 0 \<le> gcRootCount obj - 1
         then Inr (s\<lparr>eventQueue := [], graphChanged := True,
                     heap := fmupd x (obj\<lparr>gcRootCount := gcRootCount obj - 1\<rparr>) (heap s)\<rparr>)
         else Inl AssertRootCount))"
proof (intro conjI impI allI)
  assume m: "roots_matched s"
  then have m': "matched_from (root_count (s\<lparr>eventQueue := []\<rparr>)) (eventQueue s)"
    by (simp add: roots_matched_def matched_from_def)
  then show "ProcessEvents' s \<noteq> Inl AssertRootCount"
    by (simp add: ProcessEvents'_replay replay_no_AssertRootCount)
  fix s' x obj
  assume "ProcessEvents' s = Inr s'" and l: "fmlookup (heap s') x = Some obj"
  then have "matched_from (root_count s') []"
    using m' replay_root_counts by (simp add: ProcessEvents'_replay)
  then have "0 \<le> root_count s' x"
    by (rule matched_from_nonneg)
  with l show "0 \<le> gcRootCount obj"
    by (simp add: root_count_def)
next
  assume "eventQueue s = [RemoveRoot x] \<and> fmlookup (heap s) x = Some obj \<and> INT_MIN < gcRootCount obj"
  then show "ProcessEvents' s =
        (if 0 \<le> gcRootCount obj - 1
         then Inr (s\<lparr>eventQueue := [], graphChanged := True,
                     heap := fmupd x (obj\<lparr>gcRootCount := gcRootCount obj - 1\<rparr>) (heap s)\<rparr>)
         else Inl AssertRootCount)"
    by (simp add: ProcessEvents'.simps [of s] ProcessEvents'.simps [of "_\<lparr>heap := _\<rparr>"])
qed

theorem root_counts_after_replay_witness:
  "roots_matched (example_heap\<lparr>eventQueue := [AddRoot 2, RemoveRoot 2, RemoveRoot 1]\<rparr>) \<and>
   ProcessEvents' (example_heap\<lparr>eventQueue := [AddRoot 2, RemoveRoot 2, RemoveRoot 1]\<rparr>)
     \<noteq> Inl AssertRootCount \<and>
   ProcessEvents' (example_heap\<lparr>eventQueue := [RemoveRoot 1]\<rparr>)
     = Inr (example_heap\<lparr>eventQueue := [], graphChanged := True,
             heap := fmupd 1 (example_obj\<lparr>gcRootCount := 0\<rparr>) (heap example_heap)\<rparr>) \<and>
   ProcessEvents' (example_heap\<lparr>eventQueue := [RemoveRoot 2]\<rparr>) = Inl AssertRootCount"
  using example_matched
    root_counts_after_replay [of "example_heap\<lparr>eventQueue := [AddRoot 2, RemoveRoot 2, RemoveRoot 1]\<rparr>" 1 example_obj]
    root_counts_after_replay [of "example_heap\<lparr>eventQueue := [RemoveRoot 1]\<rparr>" 1 example_obj]
    root_counts_after_replay [of "example_heap\<lparr>eventQueue := [RemoveRoot 2]\<rparr>" 2 new_Collectable]
  by (simp add: example_heap_def example_obj_def new_Collectable_def INT_MIN_def)

section \<open>The frame of ProcessEvents\<close>

text \<open>
  Claim C9. Whatever events the handles emit and however often \<open>ProcessEvents\<close> is
  called, as long as \<open>Collect\<close> is not called: no object is destroyed (the log of
  destructions is unchanged and the live objects are the same), every registered object
  stays registered, whatever its root count has become, and nothing is traced (the
  sequence number and the stamp of every object are unchanged).
\<close>

theorem ProcessEvents_destroys_nothing:
  assumes "run s acts = Some (Inr s')" and "\<forall>act \<in> set acts. \<not> is_collect act"
  shows "destroyed s' = destroyed s \<and> nodes s |\<subseteq>| nodes s' \<and> fmdom (heap s') = fmdom (heap s) \<and>
         sequence s' = sequence s \<and>
         (\<forall>x obj'. fmlookup (heap s') x = Some obj' \<longrightarrow>
            (\<exists>obj. fmlookup (heap s) x = Some obj \<and> gcSequence obj' = gcSequence obj))"
proof -
  have "frame s s'"
    using assms
  proof (induction acts arbitrary: s)
    case Nil
    then show ?case by (simp add: frame_refl)
  next
    case (Cons act acts)
    show ?case
    proof (cases act)
      case (Emit e)
      with Cons.prems obtain s1 where s1: "PushEvent' s e = Some s1" and r: "run s1 acts = Some (Inr s')"
        by (auto split: option.splits)
      from Cons.IH [OF r] Cons.prems(2) PushEvent'_frame [OF s1] show ?thesis
        by (auto intro: frame_trans)
    next
      case CallProcessEvents
      with Cons.prems obtain s1 where s1: "ProcessEvents' s = Inr s1" and r: "run s1 acts = Some (Inr s')"
        by (auto simp: ProcessEvents_def split: sum.splits)
      from Cons.IH [OF r] Cons.prems(2) ProcessEvents'_frame [OF s1] show ?thesis
        by (auto intro: frame_trans)
    next
      case (CallCollect t)
      with Cons.prems(2) show ?thesis by simp
    qed
  qed
  then show ?thesis
    by (simp add: frame_def)
qed

theorem ProcessEvents_destroys_nothing_witness:
  "\<exists>s'. run example_heap [Emit (RemoveRoot 1), CallProcessEvents, CallProcessEvents] = Some (Inr s') \<and>
        root_count s' 1 = 0 \<and> destroyed s' = [] \<and> 1 |\<in>| nodes s' \<and> 1 |\<in>| fmdom (heap s')"
proof -
  have "\<exists>s'. run example_heap [Emit (RemoveRoot 1), CallProcessEvents, CallProcessEvents] = Some (Inr s') \<and>
        root_count s' 1 = 0"
    by (simp add: example_heap_def example_obj_def Collector_init_def PushEvent'_room
        queue_capacity_def ProcessEvents_def ProcessEvents'_replay INT_MIN_def root_count_def)
  then obtain s' where
    r: "run example_heap [Emit (RemoveRoot 1), CallProcessEvents, CallProcessEvents] = Some (Inr s')"
    and c: "root_count s' 1 = 0"
    by blast
  from ProcessEvents_destroys_nothing [OF r]
  have "destroyed s' = [] \<and> 1 |\<in>| nodes s' \<and> 1 |\<in>| fmdom (heap s')"
    by (auto simp: example_heap_def Collector_init_def)
  with r c show ?thesis
    by blast
qed

section \<open>Sweep correctness\<close>

text \<open>
  Claim C1. Take a state in which no live object already carries the stamp of the next
  trace and no root count is negative (both hold in every state the collector reaches
  from its initial state, until the sequence number wraps around), and a call of
  \<open>Collect\<close> that returns and whose drain leaves the graph dirty; \<open>s1\<close> is the state at
  trace start, after the drain. Then every object that is registered at trace start and
  not reachable along the mirrored edges from a registered object with a positive root
  count is, after the call, out of the registry, no longer live, and once more in the log
  of destructions than before (destroyed exactly once by this call); and every object
  registered after the call is reachable, in the state after the call, from a registered
  object with a positive root count. Moreover the registered objects that are reachable
  at trace start stay registered and live, and this call does not destroy them.
\<close>

theorem Collect_sweeps_unreachable:
  assumes fresh: "stamps_fresh s" and nonneg: "root_counts_nonneg s"
    and drain: "ProcessEvents' (Collect_enter t s) = Inr s1" and dirty: "graphChanged s1"
    and col: "Collect t s = Inr s'"
  shows "(\<forall>x. x |\<in>| nodes s1 \<and> x \<notin> reachable s1 \<longrightarrow>
            x |\<notin>| nodes s' \<and> x |\<notin>| fmdom (heap s') \<and>
            count_list (destroyed s') x = count_list (destroyed s1) x + 1) \<and>
         (\<forall>x. x |\<in>| nodes s' \<longrightarrow> x \<in> reachable s') \<and>
         (\<forall>x. x |\<in>| nodes s1 \<and> x \<in> reachable s1 \<longrightarrow>
            x |\<in>| nodes s' \<and> x |\<in>| fmdom (heap s') \<and>
            count_list (destroyed s') x = count_list (destroyed s1) x)"
proof -
  from col drain dirty obtain s2 s3 where
    cm: "Collect_mark s1 = Inr s2" and cs: "Collect_sweep s2 = Inr s3"
    and s': "s' = Collect_leave t s3"
    by (auto elim!: Collect_cases)
  have fr: "frame (Collect_enter t s) s1"
    by (rule ProcessEvents'_frame [OF drain])
  have fresh1: "stamps_fresh s1"
    using frame_stamps_fresh [OF fr] fresh by (simp add: stamps_fresh_def Collect_enter_def)
  have nonneg1: "root_counts_nonneg s1"
    using ProcessEvents'_nonneg [OF drain] nonneg by (simp add: root_counts_nonneg_def Collect_enter_def)
  from Collect_mark_shape [OF cm] obtain h where
    s2: "s2 = s1\<lparr>sequence := sequence s1 + 1, heap := h\<rparr>"
    and stp: "stamped (sequence s1 + 1) (heap s1) h"
    by blast
  have M: "marked (sequence s2) (heap s2) = reachable s1"
    by (rule Collect_mark_reachable [OF cm fresh1 nonneg1])
  note SW = Collect_sweep_result [OF cs]
  have n': "nodes s' = ffilter (\<lambda>x. x \<in> reachable s1) (nodes s1)"
    using SW M s2 s' by (simp add: Collect_leave_def)
  have d': "destroyed s' = destroyed s1 @
      filter (\<lambda>x. x \<notin> reachable s1) (sorted_list_of_fset (nodes s1))"
    using SW M s2 s' by (simp add: Collect_leave_def)
  have h': "\<And>y. fmlookup (heap s') y =
      (if y |\<in>| nodes s1 \<and> y \<notin> reachable s1 then None else fmlookup h y)"
    using SW M s2 s' by (simp add: Collect_leave_def)
  have live: "\<And>y. y \<in> reachable s1 \<Longrightarrow>
      \<exists>obj obj'. fmlookup (heap s1) y = Some obj \<and> fmlookup (heap s') y = Some obj' \<and>
        gcConnections obj' = gcConnections obj \<and> gcRootCount obj' = gcRootCount obj"
  proof -
    fix y
    assume y: "y \<in> reachable s1"
    with M s2 obtain obj' where o': "fmlookup h y = Some obj'"
      by (auto simp: marked_def)
    from stp have "rel_option
        (\<lambda>obj obj'. gcConnections obj' = gcConnections obj \<and> gcRootCount obj' = gcRootCount obj \<and>
           (gcSequence obj' = gcSequence obj \<or> gcSequence obj' = sequence s1 + 1))
        (fmlookup (heap s1) y) (fmlookup h y)"
      by (simp add: stamped_def)
    with o' obtain obj where "fmlookup (heap s1) y = Some obj"
      "gcConnections obj' = gcConnections obj" "gcRootCount obj' = gcRootCount obj"
      by (cases "fmlookup (heap s1) y") auto
    with o' y h' [of y] show "\<exists>obj obj'. fmlookup (heap s1) y = Some obj \<and> fmlookup (heap s') y = Some obj' \<and>
        gcConnections obj' = gcConnections obj \<and> gcRootCount obj' = gcRootCount obj"
      by simp
  qed
  have dist: "distinct (sorted_list_of_fset (nodes s1))"
    by (simp add: sorted_list_of_fset.rep_eq)
  have 1: "\<forall>x. x |\<in>| nodes s1 \<and> x \<notin> reachable s1 \<longrightarrow>
            x |\<notin>| nodes s' \<and> x |\<notin>| fmdom (heap s') \<and>
            count_list (destroyed s') x = count_list (destroyed s1) x + 1"
  proof (intro allI impI)
    fix x
    assume x: "x |\<in>| nodes s1 \<and> x \<notin> reachable s1"
    then have "x \<in> set (sorted_list_of_fset (nodes s1))"
      by simp
    with x dist have "count_list (filter (\<lambda>x. x \<notin> reachable s1) (sorted_list_of_fset (nodes s1))) x = 1"
      by (intro count_list_filter_distinct) auto
    with x n' d' h' [of x] show "x |\<notin>| nodes s' \<and> x |\<notin>| fmdom (heap s') \<and>
            count_list (destroyed s') x = count_list (destroyed s1) x + 1"
      by (simp add: fmlookup_dom_iff)
  qed
  have 3: "\<forall>x. x |\<in>| nodes s1 \<and> x \<in> reachable s1 \<longrightarrow>
            x |\<in>| nodes s' \<and> x |\<in>| fmdom (heap s') \<and>
            count_list (destroyed s') x = count_list (destroyed s1) x"
  proof (intro allI impI)
    fix x
    assume x: "x |\<in>| nodes s1 \<and> x \<in> reachable s1"
    then have "count_list (filter (\<lambda>x. x \<notin> reachable s1) (sorted_list_of_fset (nodes s1))) x = 0"
      by (intro count_list_filter_out) simp
    with x n' d' live [of x] show "x |\<in>| nodes s' \<and> x |\<in>| fmdom (heap s') \<and>
            count_list (destroyed s') x = count_list (destroyed s1) x"
      by (auto simp: fmlookup_dom_iff)
  qed
  have 2: "\<forall>x. x |\<in>| nodes s' \<longrightarrow> x \<in> reachable s'"
  proof (intro allI impI)
    fix x
    assume "x |\<in>| nodes s'"
    with n' have "x \<in> reachable s1"
      by simp
    then obtain r where r: "r \<in> rooted s1" and p: "(r, x) \<in> (edges (heap s1))\<^sup>*"
      by (auto simp: reachable_def)
    have rr: "r \<in> reachable s1"
      using r by (auto simp: reachable_def)
    have r': "r \<in> rooted s'"
      using r live [OF rr] n' rr by (auto simp: rooted_def)
    from p have "(r, x) \<in> (edges (heap s'))\<^sup>*"
    proof (induction rule: rtrancl_induct)
      case base
      show ?case by simp
    next
      case (step y z)
      have "y \<in> reachable s1"
        using r step.hyps(1) by (auto simp: reachable_def)
      from live [OF this] step.hyps(2) have "(y, z) \<in> edges (heap s')"
        by (auto simp: edges_def)
      with step.IH show ?case
        by (rule rtrancl_into_rtrancl)
    qed
    with r' show "x \<in> reachable s'"
      by (auto simp: reachable_def)
  qed
  from 1 2 3 show ?thesis
    by blast
qed

theorem Collect_sweeps_unreachable_witness:
  "stamps_fresh example_garbage \<and> root_counts_nonneg example_garbage \<and>
   (\<exists>s1 s'. ProcessEvents' (Collect_enter 0 example_garbage) = Inr s1 \<and> graphChanged s1 \<and>
      Collect 0 example_garbage = Inr s' \<and>
      3 |\<in>| nodes s1 \<and> 3 \<notin> reachable s1 \<and>
      3 |\<notin>| nodes s' \<and> 3 |\<notin>| fmdom (heap s') \<and> count_list (destroyed s') 3 = 1 \<and>
      nodes s' = {|1, 2|} \<and> 1 \<in> reachable s' \<and> 2 \<in> reachable s')"
proof -
  have fresh: "stamps_fresh example_garbage"
    by (auto simp: stamps_fresh_def example_garbage_def new_object_def new_Collectable_def
        Collector_init_def split: if_splits)
  have nonneg: "root_counts_nonneg example_garbage"
    by (auto simp: root_counts_nonneg_def example_garbage_def new_object_def new_Collectable_def
        Collector_init_def split: if_splits)
  have "\<exists>s1. ProcessEvents' (Collect_enter 0 example_garbage) = Inr s1 \<and> graphChanged s1 \<and>
      3 |\<in>| nodes s1 \<and> destroyed s1 = []"
    by (simp add: example_eval)
  then obtain s1 where drain: "ProcessEvents' (Collect_enter 0 example_garbage) = Inr s1"
    and dirty: "graphChanged s1" and reg: "3 |\<in>| nodes s1" and d1: "destroyed s1 = []"
    by blast
  have "\<exists>s'. Collect 0 example_garbage = Inr s' \<and> nodes s' = {|1, 2|}"
    by (simp add: example_eval finsert_commute)
  then obtain s' where col: "Collect 0 example_garbage = Inr s'" and n': "nodes s' = {|1, 2|}"
    by blast
  note T = Collect_sweeps_unreachable [OF fresh nonneg drain dirty col]
  note gone = T [THEN conjunct1, rule_format, of 3]
  note alive = T [THEN conjunct2, THEN conjunct1, rule_format]
  note kept = T [THEN conjunct2, THEN conjunct2, rule_format, of 3]
  from kept n' reg have unreach: "3 \<notin> reachable s1"
    by auto
  with gone reg d1 have "3 |\<notin>| nodes s' \<and> 3 |\<notin>| fmdom (heap s') \<and> count_list (destroyed s') 3 = 1"
    by simp
  moreover from alive [of 1] alive [of 2] n' have "1 \<in> reachable s' \<and> 2 \<in> reachable s'"
    by simp
  ultimately have "ProcessEvents' (Collect_enter 0 example_garbage) = Inr s1 \<and> graphChanged s1 \<and>
      Collect 0 example_garbage = Inr s' \<and>
      3 |\<in>| nodes s1 \<and> 3 \<notin> reachable s1 \<and>
      3 |\<notin>| nodes s' \<and> 3 |\<notin>| fmdom (heap s') \<and> count_list (destroyed s') 3 = 1 \<and>
      nodes s' = {|1, 2|} \<and> 1 \<in> reachable s' \<and> 2 \<in> reachable s'"
    using drain dirty col reg unreach n' by simp
  then have "\<exists>s1 s'. ProcessEvents' (Collect_enter 0 example_garbage) = Inr s1 \<and> graphChanged s1 \<and>
      Collect 0 example_garbage = Inr s' \<and>
      3 |\<in>| nodes s1 \<and> 3 \<notin> reachable s1 \<and>
      3 |\<notin>| nodes s' \<and> 3 |\<notin>| fmdom (heap s') \<and> count_list (destroyed s') 3 = 1 \<and>
      nodes s' = {|1, 2|} \<and> 1 \<in> reachable s' \<and> 2 \<in> reachable s'"
    by (intro exI)
  with fresh nonneg show ?thesis
    by simp
qed

section \<open>Idempotence of Collect\<close>

text \<open>
  Claim C2. After a call of \<open>Collect\<close> that returns, a second call with no event emitted
  in between, by the same thread or by another one, returns too, destroys nothing (the
  log of destructions is unchanged) and leaves the registry, the heap and the sequence
  number as the first call left them: the first call has emptied the queue and cleared
  the dirty flag, so the second one skips trace and sweep. Called by the same thread it
  leaves the whole state unchanged.
\<close>

theorem Collect_idempotent:
  assumes "Collect t s = Inr s'"
  shows "Collect t s' = Inr s' \<and>
         (\<exists>s''. Collect t' s' = Inr s'' \<and> destroyed s'' = destroyed s' \<and> nodes s'' = nodes s' \<and>
            heap s'' = heap s' \<and> sequence s'' = sequence s' \<and> eventQueue s'' = eventQueue s' \<and>
            graphChanged s'' = graphChanged s')"
proof -
  note c = Collect_clean [OF assms]
  have "(inGC s')(t \<mapsto> False) = inGC s'"
    using c by (auto simp: fun_eq_iff)
  with Collect_of_clean [of s' t] c have "Collect t s' = Inr s'"
    by simp
  moreover from Collect_of_clean [of s' t'] c
  have "Collect t' s' = Inr (s'\<lparr>inGC := (inGC s')(t' \<mapsto> False)\<rparr>)"
    by simp
  ultimately show ?thesis
    by simp
qed

theorem Collect_idempotent_witness:
  "\<exists>s'. Collect 0 example_garbage = Inr s' \<and> destroyed s' = [3] \<and> Collect 0 s' = Inr s' \<and>
     (\<exists>s''. Collect 1 s' = Inr s'' \<and> destroyed s'' = [3] \<and> nodes s'' = nodes s' \<and> heap s'' = heap s')"
proof -
  have "\<exists>s'. Collect 0 example_garbage = Inr s' \<and> destroyed s' = [3]"
    by (simp add: example_eval)
  then obtain s' where c: "Collect 0 example_garbage = Inr s'" and d: "destroyed s' = [3]"
    by blast
  from Collect_idempotent [OF c, of 1] c d show ?thesis
    by auto
qed


section \<open>Objects that are never rooted\<close>

text \<open>
  Claim C10. An object \<open>x\<close> that is not registered and that no pending or later \<open>AddRoot\<close>
  event names is never put into the registry and never destroyed by the collector,
  whatever else the handles emit (\<open>x\<close> may be the target of \<open>Connect\<close> events and may
  become unreachable) and however often \<open>ProcessEvents\<close> and \<open>Collect\<close> run: the log of
  destructions holds \<open>x\<close> as often as before, and \<open>x\<close> is still live if it was.
\<close>

theorem never_rooted_never_destroyed:
  assumes "run s acts = Some (Inr s')" and "Emit (AddRoot x) \<notin> set acts"
    and "x |\<notin>| nodes s" and "AddRoot x \<notin> set (eventQueue s)"
  shows "x |\<notin>| nodes s' \<and> count_list (destroyed s') x = count_list (destroyed s) x \<and>
         (x |\<in>| fmdom (heap s) \<longrightarrow> x |\<in>| fmdom (heap s'))"
proof -
  have "spared x s s'"
    using assms
  proof (induction acts arbitrary: s)
    case Nil
    then show ?case by (simp add: spared_def)
  next
    case (Cons act acts)
    have rest: "Emit (AddRoot x) \<notin> set acts"
      using Cons.prems(2) by simp
    show ?case
    proof (cases act)
      case (Emit e)
      with Cons.prems obtain s1 where s1: "PushEvent' s e = Some s1" and r: "run s1 acts = Some (Inr s')"
        by (auto split: option.splits)
      have ne: "e \<noteq> AddRoot x"
        using Emit Cons.prems(2) by auto
      have sp: "spared x s s1"
        by (rule PushEvent'_spared [OF s1 ne Cons.prems(3,4)])
      then have "spared x s1 s'"
        using Cons.IH [OF r rest] by (simp add: spared_def)
      with sp show ?thesis
        by (rule spared_trans)
    next
      case CallProcessEvents
      with Cons.prems obtain s1 where s1: "ProcessEvents' s = Inr s1" and r: "run s1 acts = Some (Inr s')"
        by (auto simp: ProcessEvents_def split: sum.splits)
      have sp: "spared x s s1"
        by (rule ProcessEvents'_spared [OF s1 Cons.prems(3,4)])
      then have "spared x s1 s'"
        using Cons.IH [OF r rest] by (simp add: spared_def)
      with sp show ?thesis
        by (rule spared_trans)
    next
      case (CallCollect t)
      with Cons.prems obtain s1 where s1: "Collect t s = Inr s1" and r: "run s1 acts = Some (Inr s')"
        by (auto split: sum.splits)
      have sp: "spared x s s1"
        by (rule Collect_spared [OF s1 Cons.prems(3,4)])
      then have "spared x s1 s'"
        using Cons.IH [OF r rest] by (simp add: spared_def)
      with sp show ?thesis
        by (rule spared_trans)
    qed
  qed
  then show ?thesis
    by (simp add: spared_def)
qed

theorem never_rooted_never_destroyed_witness:
  "\<exists>s'. run (new_object (new_object Collector_init 1) 2) example_leak = Some (Inr s') \<and>
     destroyed s' = [1] \<and> 2 |\<notin>| nodes s' \<and> count_list (destroyed s') 2 = 0 \<and> 2 |\<in>| fmdom (heap s')"
proof -
  have "\<exists>s'. run (new_object (new_object Collector_init 1) 2) example_leak = Some (Inr s') \<and>
     destroyed s' = [1]"
    by (simp add: example_leak_def example_eval PushEvent'_room queue_capacity_def
        ProcessEvents_def vector_erase_def)
  then obtain s' where
    r: "run (new_object (new_object Collector_init 1) 2) example_leak = Some (Inr s')"
    and d: "destroyed s' = [1]"
    by blast
  have "Emit (AddRoot 2) \<notin> set example_leak"
    by (simp add: example_leak_def)
  from never_rooted_never_destroyed [OF r this]
  have "2 |\<notin>| nodes s' \<and> count_list (destroyed s') 2 = 0 \<and> 2 |\<in>| fmdom (heap s')"
    by (simp add: new_object_def Collector_init_def)
  with r d show ?thesis
    by blast
qed

section \<open>The in-collector flag\<close>

text \<open>
  Claim C4, as stated, fails: \<open>Collect\<close> sets the flag of its thread before the drain, so
  \<open>InGC\<close> is already true on that thread during the event drain and the mark phase. Here
  the flag of thread 0 is true on entry to the drain, when the drain has ended and the
  mark phase begins, and when the mark phase has ended.
\<close>

theorem InGC_true_during_drain_and_mark:
  "\<exists>s1 s2. fst (InGC 0 (Collect_enter 0 example_garbage)) \<and>
     ProcessEvents' (Collect_enter 0 example_garbage) = Inr s1 \<and> fst (InGC 0 s1) \<and>
     Collect_mark s1 = Inr s2 \<and> fst (InGC 0 s2)"
  by (simp add: example_eval InGC_def)

text \<open>
  Claim C4, amended. On the thread \<open>t\<close> that executes \<open>Collect\<close>, \<open>InGC\<close> returns true
  during the whole call, and the flag of every other thread stays what it was when the
  call began: on entry, after the replay of any number of the pending events, when the
  drain has ended, at every point of the mark phase (whatever the heap has become),
  after the mark phase and at every point of the sweep. Once \<open>Collect\<close> has returned,
  \<open>InGC\<close> returns false on \<open>t\<close> and the other flags are still unchanged. So when no
  thread had its flag set at entry, \<open>InGC\<close> returns false on every thread other than \<open>t\<close>
  throughout the call. Outside \<open>Collect\<close> no thread has its flag set: this holds in the
  initial state and is kept by allocation, by every run of emitted events and calls of
  \<open>ProcessEvents\<close> and \<open>Collect\<close>, and by the destruction of an Edge handle (the one
  handle operation that calls \<open>InGC\<close>); in such a state \<open>InGC\<close> returns false on every
  thread.
\<close>

theorem InGC_whole_Collect:
  "flags_during t s (Collect_enter t s) \<and>
   (\<forall>n sn. replay (Collect_enter t s) (take n (eventQueue s)) = Inr sn \<longrightarrow> flags_during t s sn) \<and>
   (\<forall>s1. ProcessEvents' (Collect_enter t s) = Inr s1 \<longrightarrow>
      flags_during t s s1 \<and>
      (\<forall>h. flags_during t s (s1\<lparr>sequence := sequence s1 + 1, heap := h\<rparr>)) \<and>
      (\<forall>s2. Collect_mark s1 = Inr s2 \<longrightarrow>
         flags_during t s s2 \<and>
         (\<forall>xs nn nn' s3. sweep xs nn s2 = Inr (nn', s3) \<longrightarrow> flags_during t s s3))) \<and>
   (\<forall>s'. Collect t s = Inr s' \<longrightarrow>
      InGC t s' = (False, s') \<and> (\<forall>t'. t' \<noteq> t \<longrightarrow> inGC s' t' = inGC s t')) \<and>
   (\<forall>sx t'. no_thread_in_collector s \<and> flags_during t s sx \<and> t' \<noteq> t \<longrightarrow> \<not> fst (InGC t' sx)) \<and>
   no_thread_in_collector Collector_init \<and>
   (\<forall>s0 x. no_thread_in_collector s0 \<longrightarrow> no_thread_in_collector (new_object s0 x)) \<and>
   (\<forall>s0 acts s'. no_thread_in_collector s0 \<and> run s0 acts = Some (Inr s') \<longrightarrow>
      no_thread_in_collector s') \<and>
   (\<forall>s0 t' p s'. no_thread_in_collector s0 \<and> EdgePtr_dtor t' s0 p = Some s' \<longrightarrow>
      no_thread_in_collector s') \<and>
   (\<forall>s0 t'. no_thread_in_collector s0 \<longrightarrow> \<not> fst (InGC t' s0))"
proof (intro conjI allI impI)
  show "flags_during t s (Collect_enter t s)"
    by (simp add: flags_during_iff Collect_enter_def)
  show "flags_during t s sn"
    if "replay (Collect_enter t s) (take n (eventQueue s)) = Inr sn" for n sn
    using replay_inGC [OF that] by (simp add: flags_during_iff Collect_enter_def)
  show d: "flags_during t s s1" if "ProcessEvents' (Collect_enter t s) = Inr s1" for s1
    using ProcessEvents'_frame [OF that] by (simp add: flags_during_iff Collect_enter_def frame_def)
  show "flags_during t s (s1\<lparr>sequence := sequence s1 + 1, heap := h\<rparr>)"
    if "ProcessEvents' (Collect_enter t s) = Inr s1" for s1 h
    using d [OF that] by (simp add: flags_during_iff)
  show m: "flags_during t s s2"
    if "ProcessEvents' (Collect_enter t s) = Inr s1" "Collect_mark s1 = Inr s2" for s1 s2
    using d [OF that(1)] Collect_mark_shape [OF that(2)] by (auto simp: flags_during_iff)
  show "flags_during t s s3"
    if "ProcessEvents' (Collect_enter t s) = Inr s1" "Collect_mark s1 = Inr s2"
      "sweep xs nn s2 = Inr (nn', s3)" for s1 s2 s3 xs nn nn'
    using m [OF that(1,2)] sweep_inGC [OF that(3)] by (simp add: flags_during_iff)
  show "InGC t s' = (False, s')" if "Collect t s = Inr s'" for s'
    using Collect_inGC [OF that] by (simp add: InGC_def)
  show "inGC s' t' = inGC s t'" if "Collect t s = Inr s'" "t' \<noteq> t" for s' t'
    using Collect_inGC [OF that(1)] that(2) by simp
  show "\<not> fst (InGC t' sx)"
    if "no_thread_in_collector s \<and> flags_during t s sx \<and> t' \<noteq> t" for sx t'
    using that by (auto simp: flags_during_def no_thread_in_collector_def InGC_def split: option.splits)
  show "no_thread_in_collector Collector_init"
    by (simp add: no_thread_in_collector_def Collector_init_def)
  show "no_thread_in_collector (new_object s0 x)" if "no_thread_in_collector s0" for s0 x
    using that by (simp add: no_thread_in_collector_def new_object_def)
  show "no_thread_in_collector s'"
    if "no_thread_in_collector s0 \<and> run s0 acts = Some (Inr s')" for s0 acts s'
    using that run_no_thread_in_collector by blast
  show "no_thread_in_collector s'"
    if "no_thread_in_collector s0 \<and> EdgePtr_dtor t' s0 p = Some s'" for s0 t' p s'
    using that EdgePtr_dtor_no_thread_in_collector by blast
  show "\<not> fst (InGC t' s0)" if "no_thread_in_collector s0" for s0 t'
    using that by (auto simp: no_thread_in_collector_def InGC_def split: option.splits)
qed

theorem InGC_whole_Collect_witness:
  "flags_during 0 example_garbage (Collect_enter 0 example_garbage) \<and>
   no_thread_in_collector example_garbage \<and>
   (\<exists>s1 s2 s'. ProcessEvents' (Collect_enter 0 example_garbage) = Inr s1 \<and>
      InGC 0 s1 = (True, s1) \<and> inGC s1 1 = inGC example_garbage 1 \<and> \<not> fst (InGC 1 s1) \<and>
      Collect_mark s1 = Inr s2 \<and>
      InGC 0 s2 = (True, s2) \<and> inGC s2 1 = inGC example_garbage 1 \<and> \<not> fst (InGC 1 s2) \<and>
      Collect 0 example_garbage = Inr s' \<and> InGC 0 s' = (False, s') \<and>
      inGC s' 1 = inGC example_garbage 1) \<and>
   (\<exists>s'. run (new_object (new_object Collector_init 1) 2) example_leak = Some (Inr s') \<and>
      no_thread_in_collector s' \<and> \<not> fst (InGC 0 s') \<and> \<not> fst (InGC 1 s'))"
proof -
  note T = InGC_whole_Collect [of 0 example_garbage]
  note enter = T [THEN conjunct1]
  note drained = T [THEN conjunct2, THEN conjunct2, THEN conjunct1, rule_format]
  note returned = T [THEN conjunct2, THEN conjunct2, THEN conjunct2, THEN conjunct1, rule_format]
  note others = T [THEN conjunct2, THEN conjunct2, THEN conjunct2, THEN conjunct2, THEN conjunct1,
      rule_format]
  note rest = T [THEN conjunct2, THEN conjunct2, THEN conjunct2, THEN conjunct2, THEN conjunct2]
  note init = rest [THEN conjunct1]
  note alloc = rest [THEN conjunct2, THEN conjunct1, rule_format]
  note runs = rest [THEN conjunct2, THEN conjunct2, THEN conjunct1, rule_format]
  note reads = rest [THEN conjunct2, THEN conjunct2, THEN conjunct2, THEN conjunct2, rule_format]
  have quiet: "no_thread_in_collector example_garbage"
    by (simp add: no_thread_in_collector_def example_garbage_def new_object_def Collector_init_def)
  have "\<exists>s1 s2. ProcessEvents' (Collect_enter 0 example_garbage) = Inr s1 \<and> Collect_mark s1 = Inr s2"
    by (simp add: example_eval)
  then obtain s1 s2 where
    s1: "ProcessEvents' (Collect_enter 0 example_garbage) = Inr s1" and s2: "Collect_mark s1 = Inr s2"
    by blast
  have "\<exists>s'. Collect 0 example_garbage = Inr s'"
    by (simp add: example_eval)
  then obtain s' where s': "Collect 0 example_garbage = Inr s'"
    by blast
  have f1: "flags_during 0 example_garbage s1"
    using drained [OF s1] by simp
  have f2: "flags_during 0 example_garbage s2"
    using drained [OF s1] s2 by simp
  have o1: "\<not> fst (InGC 1 s1)"
    by (rule others [of s1 1]) (simp add: quiet f1)
  have o2: "\<not> fst (InGC 1 s2)"
    by (rule others [of s2 1]) (simp add: quiet f2)
  have r: "InGC 0 s' = (False, s')" "inGC s' 1 = inGC example_garbage 1"
    using returned [OF s'] by simp_all
  have a: "ProcessEvents' (Collect_enter 0 example_garbage) = Inr s1 \<and>
      InGC 0 s1 = (True, s1) \<and> inGC s1 1 = inGC example_garbage 1 \<and> \<not> fst (InGC 1 s1) \<and>
      Collect_mark s1 = Inr s2 \<and>
      InGC 0 s2 = (True, s2) \<and> inGC s2 1 = inGC example_garbage 1 \<and> \<not> fst (InGC 1 s2) \<and>
      Collect 0 example_garbage = Inr s' \<and> InGC 0 s' = (False, s') \<and>
      inGC s' 1 = inGC example_garbage 1"
    using s1 s2 s' f1 f2 o1 o2 r by (simp add: flags_during_def)
  have A: "\<exists>s1 s2 s'. ProcessEvents' (Collect_enter 0 example_garbage) = Inr s1 \<and>
      InGC 0 s1 = (True, s1) \<and> inGC s1 1 = inGC example_garbage 1 \<and> \<not> fst (InGC 1 s1) \<and>
      Collect_mark s1 = Inr s2 \<and>
      InGC 0 s2 = (True, s2) \<and> inGC s2 1 = inGC example_garbage 1 \<and> \<not> fst (InGC 1 s2) \<and>
      Collect 0 example_garbage = Inr s' \<and> InGC 0 s' = (False, s') \<and>
      inGC s' 1 = inGC example_garbage 1"
    using a by (intro exI)
  have "\<exists>sr. run (new_object (new_object Collector_init 1) 2) example_leak = Some (Inr sr)"
    by (simp add: example_leak_def example_eval PushEvent'_room queue_capacity_def
        ProcessEvents_def vector_erase_def)
  then obtain sr where sr: "run (new_object (new_object Collector_init 1) 2) example_leak = Some (Inr sr)"
    by blast
  have "no_thread_in_collector (new_object (new_object Collector_init 1) 2)"
    by (intro alloc init)
  with sr have nr: "no_thread_in_collector sr"
    using runs [of "new_object (new_object Collector_init 1) 2" example_leak sr] by simp
  have b: "run (new_object (new_object Collector_init 1) 2) example_leak = Some (Inr sr) \<and>
      no_thread_in_collector sr \<and> \<not> fst (InGC 0 sr) \<and> \<not> fst (InGC 1 sr)"
    using sr nr reads [OF nr] by simp
  have B: "\<exists>s'. run (new_object (new_object Collector_init 1) 2) example_leak = Some (Inr s') \<and>
      no_thread_in_collector s' \<and> \<not> fst (InGC 0 s') \<and> \<not> fst (InGC 1 s')"
    using b by (intro exI)
  from enter quiet A B show ?thesis
    by simp
qed

section \<open>Batching of the replay\<close>

text \<open>
  Claim C8. Two runs from the same state in which the handles emit the same events in
  the same order, with calls of \<open>ProcessEvents\<close> placed anywhere and in any number between
  them and no call of \<open>Collect\<close>, and which both end with a call of \<open>ProcessEvents\<close>, give
  the same result: the same state (registry, edges, root counts and all the rest) when
  no assertion fires, and the same failure otherwise.
\<close>

theorem replay_batching:
  assumes "\<forall>act \<in> set acts1. \<not> is_collect act" and "\<forall>act \<in> set acts2. \<not> is_collect act"
    and "emitted acts1 = emitted acts2"
    and "run s (acts1 @ [CallProcessEvents]) = Some r1"
    and "run s (acts2 @ [CallProcessEvents]) = Some r2"
  shows "r1 = r2"
  using run_then_drain [OF assms(4) assms(1)] run_then_drain [OF assms(5) assms(2)] assms(3)
  by simp

theorem replay_batching_witness:
  "\<exists>s'. run (new_object (new_object Collector_init 1) 2) (example_split1 @ [CallProcessEvents])
          = Some (Inr s') \<and>
        run (new_object (new_object Collector_init 1) 2) (example_split2 @ [CallProcessEvents])
          = Some (Inr s') \<and> nodes s' = {|1|} \<and> root_count s' 1 = 0"
proof -
  have "\<exists>s'. run (new_object (new_object Collector_init 1) 2) (example_split1 @ [CallProcessEvents])
          = Some (Inr s') \<and> nodes s' = {|1|} \<and> root_count s' 1 = 0"
    by (simp add: example_split1_def example_eval PushEvent'_room queue_capacity_def
        ProcessEvents_def root_count_def)
  then obtain s' where
    r1: "run (new_object (new_object Collector_init 1) 2) (example_split1 @ [CallProcessEvents])
          = Some (Inr s')" and n: "nodes s' = {|1|}" "root_count s' 1 = 0"
    by blast
  have "length (eventQueue (new_object (new_object Collector_init 1) 2))
      + length (emitted (example_split2 @ [CallProcessEvents])) \<le> queue_capacity"
    by (simp add: example_split2_def new_object_def Collector_init_def queue_capacity_def)
  from run_returns [OF this] obtain r2 where
    r2: "run (new_object (new_object Collector_init 1) 2) (example_split2 @ [CallProcessEvents]) = Some r2"
    by blast
  have "\<forall>act \<in> set example_split1. \<not> is_collect act" "\<forall>act \<in> set example_split2. \<not> is_collect act"
    "emitted example_split1 = emitted example_split2"
    by (simp_all add: example_split1_def example_split2_def)
  then have "Inr s' = r2"
    using r1 r2 by (rule replay_batching)
  with r1 r2 n show ?thesis
    by auto
qed

section \<open>Edge handle construction and assignment\<close>

text \<open>
  Claim C5 holds for the construction from a Root handle and for both assignments
  (\<open>EdgePtr_ctor_root_events\<close>, \<open>EdgePtr_assign_events\<close>, \<open>EdgePtr_assign_root_events\<close>
  above) and fails for the copy construction of an Edge handle from another Edge
  handle: \<^verbatim>\<open>EdgePtr\<close> declares no copy constructor (\<^verbatim>\<open>RootPtr\<close> declares one, which
  retains), so the copy of a handle with owner 1 and target 2 emits nothing where the
  claim asks for \<open>Connect 1 2\<close>.
\<close>

theorem EdgePtr_copy_ctor_no_event:
  "EdgePtr_copy_ctor Collector_init \<lparr>edge_owner = 1, edge_ptr = 2\<rparr>
     = Some (Inr (\<lparr>edge_owner = 1, edge_ptr = 2\<rparr>, Collector_init)) \<and>
   eventQueue Collector_init = [] \<and> edge_events 1 0 2 = [Connect 1 2]"
  by (simp add: EdgePtr_copy_ctor_def Collector_init_def edge_events_def)

end
